theory Spec2Isabelle
  imports Main
begin

section \<open>Bytes, constants and run-time panics\<close>

text \<open>
  A Go \<open>byte\<close> is an 8-bit value, and so is a HOL \<open>char\<close>; a Go \<open>string\<close> and the
  visible part of a \<open>[]byte\<close> are both byte sequences, modelled as \<open>char list\<close>.
  The constants are those of \<open>parse.go\<close>. The keyword constant \<open>mod\<close> and the
  function \<open>next\<close> carry a suffix here, since both names are taken in Isabelle.
\<close>

type_synonym byte = char

definition lin :: byte where "lin = CHR 0x0A"
definition ret :: byte where "ret = CHR 0x0D"
definition tab :: byte where "tab = CHR 0x09"
definition spc :: byte where "spc = CHR '' ''"
definition esc :: byte where "esc = CHR 0x5C"
definition aps :: byte where "aps = CHR 0x27"
definition qot :: byte where "qot = CHR 0x22"
definition com :: byte where "com = CHR ''/''"
definition mod_kw :: "byte list" where "mod_kw = ''module ''"
definition pre :: "byte list" where "pre = ''//v''"

text \<open>
  Go has no exceptions; an index or a slice expression out of range stops the program
  with a run-time panic. Every such read is a branch of the model.
\<close>

datatype panic = IndexOutOfRange | SliceBoundsOutOfRange

text \<open>The index expression \<open>b[i]\<close>: in range exactly when \<open>i < len(b)\<close>.\<close>

definition index :: "byte list \<Rightarrow> nat \<Rightarrow> panic + byte" where
  "index b i = (if i < length b then Inr (b ! i) else Inl IndexOutOfRange)"

text \<open>
  The slice expression \<open>b[lo:hi]\<close>. A Go slice is a window on a backing array: \<open>b\<close>
  are its bytes up to \<open>len(b)\<close>, and \<open>sp\<close> the bytes of the backing array between
  \<open>len(b)\<close> and \<open>cap(b)\<close>. The expression is in range when \<open>lo \<le> hi \<le> cap(b)\<close>, so
  it can read bytes beyond the length.
\<close>

definition slice :: "byte list \<Rightarrow> byte list \<Rightarrow> nat \<Rightarrow> nat \<Rightarrow> panic + byte list" where
  "slice b sp lo hi =
     (if lo \<le> hi \<and> hi \<le> length b + length sp
      then Inr (take (hi - lo) (drop lo (b @ sp)))
      else Inl SliceBoundsOutOfRange)"

section \<open>The scanner (parse.go)\<close>

text \<open>
  Offsets are Go \<open>int\<close>s. \<open>parseModFile\<close> starts the scan at 0 and every offset the
  scanner computes from a non-negative one is non-negative again, so offsets are
  \<open>nat\<close> here; buffers are far shorter than \<open>2^63\<close> bytes, so no offset overflows.
\<close>

function search :: "byte \<Rightarrow> byte list \<Rightarrow> nat \<Rightarrow> nat" where
  "search c b i = (if i < length b \<and> b ! i \<noteq> c then search c b (i + 1) else i)"
  by pat_completeness auto
termination
  by (relation "measure (\<lambda>(c, b, i). length b - i)") auto

declare search.simps [simp del]

definition isspace :: "byte \<Rightarrow> bool" where
  "isspace c = (c = ret \<or> c = lin \<or> c = tab \<or> c = spc)"

definition isnum :: "byte \<Rightarrow> bool" where
  "isnum c = ((48::nat) \<le> of_char c \<and> of_char c \<le> (57::nat))"

text \<open>\<open>iscomm\<close> reads \<open>b[at+1]\<close> only when \<open>b[at]\<close> is a slash (\<open>&&\<close> is lazy).\<close>

definition iscomm :: "byte list \<Rightarrow> nat \<Rightarrow> panic + bool" where
  "iscomm b at =
     (case index b at of
        Inl e \<Rightarrow> Inl e
      | Inr x \<Rightarrow>
          if x = com
          then (case index b (at + 1) of Inl e \<Rightarrow> Inl e | Inr y \<Rightarrow> Inr (y = com))
          else Inr False)"

definition skipComment :: "byte list \<Rightarrow> nat \<Rightarrow> panic + nat" where
  "skipComment b at =
     (case iscomm b at of
        Inl e \<Rightarrow> Inl e
      | Inr True \<Rightarrow> Inr (search lin b (at + 2))
      | Inr False \<Rightarrow> Inr at)"

lemma search_ge: "i \<le> search c b i"
proof (induction c b i rule: search.induct)
  case (1 c b i)
  show ?case
  proof (cases "i < length b \<and> b ! i \<noteq> c")
    case True
    then have "search c b i = search c b (i + 1)"
      by (subst search.simps) simp
    moreover from "1" [OF True] have "i + 1 \<le> search c b (i + 1)" .
    ultimately show ?thesis by linarith
  next
    case False
    then have "search c b i = i"
      by (subst search.simps) auto
    then show ?thesis by simp
  qed
qed

lemma skipComment_ge: "skipComment b at = Inr j \<Longrightarrow> at \<le> j"
proof -
  assume a: "skipComment b at = Inr j"
  have "at + 2 \<le> search lin b (at + 2)" by (rule search_ge)
  with a show ?thesis
    by (auto simp: skipComment_def split: sum.splits bool.splits)
qed

text \<open>
  \<open>next\<close>: the first case of the switch falls through into the second, so a slash
  seen with \<open>skipcom\<close> set always costs one more increment after \<open>skipComment\<close>.
\<close>

function next_go :: "byte list \<Rightarrow> nat \<Rightarrow> bool \<Rightarrow> panic + nat" where
  "next_go b at skipcom =
     (if at < length b
      then (if skipcom \<and> b ! at = com
            then (case skipComment b at of
                    Inl e \<Rightarrow> Inl e
                  | Inr at' \<Rightarrow> next_go b (at' + 1) skipcom)
            else if isspace (b ! at) then next_go b (at + 1) skipcom
            else Inr at)
      else Inr at)"
  by pat_completeness auto
termination
proof (relation "measure (\<lambda>(b, at, skipcom). length b - at)", goal_cases)
  case 1
  show ?case by simp
next
  case (2 b at skipcom at')
  from skipComment_ge [OF 2(3)] 2(1) show ?case by simp
next
  case (3 b at skipcom)
  then show ?case by simp
qed

declare next_go.simps [simp del]

text \<open>\<open>validVersion\<close> of \<open>pub.go\<close>; the loop returns false at the first bad byte.\<close>

definition validVersion :: "byte list \<Rightarrow> bool" where
  "validVersion b =
     (if length b > 4 \<and> isnum (b ! 0) \<and> isnum (b ! (length b - 1))
      then list_all (\<lambda>c. isnum c \<or> c = CHR ''.'') b
      else False)"

text \<open>The loop of \<open>parseModName\<close> that looks for the end of an unquoted name.\<close>

function parseModName_loop :: "byte list \<Rightarrow> nat \<Rightarrow> panic + nat" where
  "parseModName_loop b i =
     (if i < length b
      then (if isspace (b ! i) then Inr i
            else (case iscomm b i of
                    Inl e \<Rightarrow> Inl e
                  | Inr True \<Rightarrow> Inr i
                  | Inr False \<Rightarrow> parseModName_loop b (i + 1)))
      else Inr i)"
  by pat_completeness auto
termination
  by (relation "measure (\<lambda>(b, i). length b - i)") auto

declare parseModName_loop.simps [simp del]

definition parseModName :: "byte list \<Rightarrow> byte list \<Rightarrow> nat \<Rightarrow> panic + (byte list \<times> nat)" where
  "parseModName b sp at0 =
     (case next_go b at0 False of
        Inl e \<Rightarrow> Inl e
      | Inr at \<Rightarrow>
          (case index b at of
             Inl e \<Rightarrow> Inl e
           | Inr c \<Rightarrow>
               let unquoted = (\<lambda>i.
                     case parseModName_loop b i of
                       Inl e \<Rightarrow> Inl e
                     | Inr i' \<Rightarrow>
                         (case slice b sp at i' of
                            Inl e \<Rightarrow> Inl e
                          | Inr name \<Rightarrow> Inr (name, i')))
               in if c = aps \<or> c = qot
                  then (let i = search c b (at + 1) in
                        case index b (i - 1) of
                          Inl e \<Rightarrow> Inl e
                        | Inr p \<Rightarrow>
                            if p \<noteq> esc
                            then (case slice b sp (at + 1) i of
                                    Inl e \<Rightarrow> Inl e
                                  | Inr name \<Rightarrow> Inr (name, i + 1))
                            else unquoted i)
                  else unquoted at))"

definition parseModVersion ::
  "byte list \<Rightarrow> byte list \<Rightarrow> nat \<Rightarrow> panic + (byte list \<times> nat \<times> nat)" where
  "parseModVersion b sp at =
     (case next_go b at False of
        Inl e \<Rightarrow> Inl e
      | Inr pos \<Rightarrow>
          (case index b pos of
             Inl e \<Rightarrow> Inl e
           | Inr c \<Rightarrow>
               if c \<noteq> com then Inr ([], 0, at)
               else (case slice b sp pos (pos + length pre) of
                       Inl e \<Rightarrow> Inl e
                     | Inr p \<Rightarrow>
                         if p \<noteq> pre then Inr ([], 0, at)
                         else (let pos' = pos + length pre;
                                   i = search lin b pos' in
                               case slice b sp pos' i of
                                 Inl e \<Rightarrow> Inl e
                               | Inr v \<Rightarrow>
                                   if validVersion v then Inr (v, i - at, at)
                                   else Inr ([], 0, at)))))"

text \<open>
  \<open>parseMod\<close> returns \<open>(name, version, vlen, i)\<close>. When the keyword does not match at
  \<open>i\<close>, at least seven bytes are left, so the loop's own test \<open>i < len(b)\<close> holds
  again after \<open>i++\<close>.
\<close>

function parseMod ::
  "byte list \<Rightarrow> byte list \<Rightarrow> nat \<Rightarrow> panic + (byte list \<times> byte list \<times> nat \<times> nat)" where
  "parseMod b sp i =
     (if i < length b
      then (case next_go b i True of
              Inl e \<Rightarrow> Inl e
            | Inr j \<Rightarrow>
                if length b < j + 7 then Inr ([], [], 0, length b)
                else (case slice b sp j (j + 7) of
                        Inl e \<Rightarrow> Inl e
                      | Inr kw \<Rightarrow>
                          if kw = mod_kw
                          then (case parseModName b sp (j + 7) of
                                  Inl e \<Rightarrow> Inl e
                                | Inr (name, i1) \<Rightarrow>
                                    (case parseModVersion b sp i1 of
                                       Inl e \<Rightarrow> Inl e
                                     | Inr (version, vlen, i2) \<Rightarrow>
                                         Inr (name, version, vlen, i2)))
                          else parseMod b sp (j + 1)))
      else Inr ([], [], 0, i))"
  by pat_completeness auto

lemma next_go_ge: "next_go b at skipcom = Inr j \<Longrightarrow> at \<le> j"
proof (induction b at skipcom rule: next_go.induct)
  case (1 b at skipcom)
  show ?case
  proof (cases "at < length b")
    case False
    with "1.prems" show ?thesis by (simp add: next_go.simps [of b at])
  next
    case lt: True
    show ?thesis
    proof (cases "skipcom \<and> b ! at = com")
      case True
      with lt "1.prems" obtain at' where
        s: "skipComment b at = Inr at'" and n: "next_go b (at' + 1) skipcom = Inr j"
        by (auto simp: next_go.simps [of b at] split: sum.splits)
      from "1.IH"(1) [OF lt True s n] skipComment_ge [OF s] show ?thesis by simp
    next
      case nc: False
      show ?thesis
      proof (cases "isspace (b ! at)")
        case True
        with lt nc "1.prems" have n: "next_go b (at + 1) skipcom = Inr j"
          by (auto simp: next_go.simps [of b at])
        from "1.IH"(2) [OF lt nc True n] show ?thesis by simp
      next
        case False
        with lt nc "1.prems" show ?thesis by (auto simp: next_go.simps [of b at])
      qed
    qed
  qed
qed

termination parseMod
proof (relation "measure (\<lambda>(b, sp, i). length b - i)", goal_cases)
  case 1
  show ?case by simp
next
  case (2 b sp i j kw)
  from next_go_ge [OF 2(2)] 2(1) 2(3) show ?case by simp
qed

declare parseMod.simps [simp del]

section \<open>The splicer (parse.go)\<close>

text \<open>
  \<open>updateModVersion\<close> builds its result with the builtin \<open>append\<close>, which writes
  into the backing array of its first argument whenever the capacity allows. Whether
  the caller's buffer is touched therefore depends on aliasing, and the model keeps an
  explicit store: a heap is the list of the backing arrays allocated so far, and a
  slice value is a window (array, offset, length, capacity) on one of them.
\<close>

type_synonym heap = "byte list list"

record gslice =
  s_arr :: nat
  s_off :: nat
  s_len :: nat
  s_cap :: nat

definition sl_bytes :: "heap \<Rightarrow> gslice \<Rightarrow> byte list" where
  "sl_bytes h s = take (s_len s) (drop (s_off s) (h ! s_arr s))"

definition sl_spare :: "heap \<Rightarrow> gslice \<Rightarrow> byte list" where
  "sl_spare h s = take (s_cap s - s_len s) (drop (s_off s + s_len s) (h ! s_arr s))"

definition wf_slice :: "heap \<Rightarrow> gslice \<Rightarrow> bool" where
  "wf_slice h s =
     (s_arr s < length h \<and> s_len s \<le> s_cap s \<and> s_off s + s_cap s \<le> length (h ! s_arr s))"

text \<open>\<open>make([]byte, 0, n)\<close>: a new zeroed array and an empty slice on it.\<close>

definition make_go :: "heap \<Rightarrow> nat \<Rightarrow> heap \<times> gslice" where
  "make_go h n =
     (h @ [replicate n (CHR 0x00)], \<lparr>s_arr = length h, s_off = 0, s_len = 0, s_cap = n\<rparr>)"

text \<open>
  The slice expressions \<open>s[:hi]\<close> (in range when \<open>0 \<le> hi \<le> cap(s)\<close>) and \<open>s[lo:]\<close>
  (in range when \<open>0 \<le> lo \<le> len(s)\<close>). Both share the array of \<open>s\<close>, and \<open>s[:hi]\<close>
  keeps the whole capacity of \<open>s\<close>.
\<close>

definition slice_to :: "gslice \<Rightarrow> int \<Rightarrow> panic + gslice" where
  "slice_to s hi =
     (if 0 \<le> hi \<and> hi \<le> int (s_cap s) then Inr (s\<lparr>s_len := nat hi\<rparr>)
      else Inl SliceBoundsOutOfRange)"

definition slice_from :: "gslice \<Rightarrow> int \<Rightarrow> panic + gslice" where
  "slice_from s lo =
     (if 0 \<le> lo \<and> lo \<le> int (s_len s)
      then Inr (s\<lparr>s_off := s_off s + nat lo, s_len := s_len s - nat lo,
                  s_cap := s_cap s - nat lo\<rparr>)
      else Inl SliceBoundsOutOfRange)"

definition write_at :: "byte list \<Rightarrow> nat \<Rightarrow> byte list \<Rightarrow> byte list" where
  "write_at a pos xs = take pos a @ xs @ drop (pos + length xs) a"

text \<open>
  The builtin \<open>append(s, xs...)\<close>, after the Go specification: when the values fit
  the capacity of \<open>s\<close> they are written into its backing array behind \<open>len(s)\<close>;
  otherwise a new, sufficiently large array is allocated and filled. How large is the
  runtime's choice, so the growth policy \<open>grow\<close> (old capacity, needed length) is a
  parameter; the new capacity is never below the needed length.
\<close>

definition append_go :: "(nat \<Rightarrow> nat \<Rightarrow> nat) \<Rightarrow> heap \<Rightarrow> gslice \<Rightarrow> byte list \<Rightarrow> heap \<times> gslice" where
  "append_go grow h s xs =
     (let n = s_len s + length xs in
      if n \<le> s_cap s
      then (h[s_arr s := write_at (h ! s_arr s) (s_off s + s_len s) xs], s\<lparr>s_len := n\<rparr>)
      else (let c = max n (grow (s_cap s) n) in
            (h @ [sl_bytes h s @ xs @ replicate (c - n) (CHR 0x00)],
             \<lparr>s_arr = length h, s_off = 0, s_len = n, s_cap = c\<rparr>)))"

text \<open>A growth policy for the examples: the capacity doubles.\<close>

definition grow_double :: "nat \<Rightarrow> nat \<Rightarrow> nat" where
  "grow_double c n = 2 * c"

text \<open>
  \<open>updateModVersion\<close>. The offsets are Go \<open>int\<close>s and may be negative. When
  \<open>bytes[:vpos]\<close> is in range, \<open>vpos\<close> is at most the capacity, and a sum
  \<open>vpos+vlen\<close> that leaves the 64-bit range makes \<open>bytes[vpos+vlen:]\<close> panic
  whether it wraps or not; so the sum is taken in \<open>int\<close>.
\<close>

definition updateModVersion ::
  "(nat \<Rightarrow> nat \<Rightarrow> nat) \<Rightarrow> heap \<Rightarrow> gslice \<Rightarrow> int \<Rightarrow> int \<Rightarrow> byte list \<Rightarrow> panic + (heap \<times> gslice)" where
  "updateModVersion grow h bytes vpos vlen version =
     (let (h0, v) = make_go h (s_len bytes) in
      case slice_to bytes vpos of
        Inl e \<Rightarrow> Inl e
      | Inr front \<Rightarrow>
          (let (h1, a1) = append_go grow h0 v [spc];
               (h2, a2) = append_go grow h1 a1 (pre @ version) in
           case slice_from bytes (vpos + vlen) of
             Inl e \<Rightarrow> Inl e
           | Inr rear \<Rightarrow>
               (let (h3, a3) = append_go grow h2 a2 (sl_bytes h2 rear) in
                Inr (append_go grow h3 front (sl_bytes h3 a3)))))"

section \<open>Version decision (pub.go)\<close>

text \<open>
  \<open>strings.Split\<close> with a one-byte separator and \<open>strings.Join\<close>, after the
  documentation of the Go standard library: \<open>Split\<close> returns the substrings between
  the separators, one more than there are separators.
\<close>

fun Split :: "byte list \<Rightarrow> byte \<Rightarrow> byte list list" where
  "Split [] c = [[]]"
| "Split (x # xs) c =
     (if x = c then [] # Split xs c
      else (case Split xs c of [] \<Rightarrow> [[x]] | y # ys \<Rightarrow> (x # y) # ys))"

fun Join :: "byte list list \<Rightarrow> byte list \<Rightarrow> byte list" where
  "Join [] sep = []"
| "Join [x] sep = x"
| "Join (x # y # ys) sep = x @ sep @ Join (y # ys) sep"

text \<open>
  A Go \<open>int\<close> is a 64-bit two's complement integer on the platforms the tool is built
  for; it is modelled as \<open>int\<close>, with the wrap-around of an addition written out.
\<close>

definition maxInt :: int where "maxInt = 2 ^ 63 - 1"
definition minInt :: int where "minInt = - (2 ^ 63)"

definition wrap64 :: "int \<Rightarrow> int" where
  "wrap64 x = (x + 2 ^ 63) mod 2 ^ 64 - 2 ^ 63"

text \<open>The value of a run of decimal digits, read left to right.\<close>

definition decval :: "byte list \<Rightarrow> nat" where
  "decval ds = foldl (\<lambda>n c. n * 10 + (of_char c - 48)) 0 ds"

text \<open>
  \<open>strconv.Atoi\<close>, after its documentation: an optional sign and a non-empty run of
  decimal digits; anything else is a syntax error with value 0; a value outside the
  range of \<open>int\<close> is a range error with the nearest bound as value.
\<close>

datatype numError = ErrSyntax | ErrRange

definition Atoi :: "byte list \<Rightarrow> int \<times> numError option" where
  "Atoi s =
     (let neg = (s \<noteq> [] \<and> hd s = CHR ''-'');
          ds = (if s \<noteq> [] \<and> (hd s = CHR ''+'' \<or> hd s = CHR ''-'') then tl s else s)
      in if ds = [] \<or> \<not> list_all isnum ds then (0, Some ErrSyntax)
         else (let n = int (decval ds) in
               if neg then (if n > 2 ^ 63 then (minInt, Some ErrRange) else (- n, None))
               else (if n > maxInt then (maxInt, Some ErrRange) else (n, None))))"

text \<open>\<open>strconv.Itoa\<close>: the decimal representation, with a minus sign when negative.\<close>

function digits :: "nat \<Rightarrow> byte list" where
  "digits n =
     (if n < 10 then [char_of (48 + n)]
      else digits (n div 10) @ [char_of (48 + n mod 10)])"
  by pat_completeness auto
termination
  by (relation "measure (\<lambda>n. n)") auto

declare digits.simps [simp del]

definition Itoa :: "int \<Rightarrow> byte list" where
  "Itoa i = (if i < 0 then CHR ''-'' # digits (nat (- i)) else digits (nat i))"

definition versionDefault :: "byte list" where
  "versionDefault = ''0.0.0''"

definition nextVersion :: "byte list \<Rightarrow> byte list" where
  "nextVersion cv =
     (if cv = [] then versionDefault
      else (let vs = Split cv (CHR ''.'');
                vi = length vs - 1;
                pv = fst (Atoi (vs ! vi))
            in Join (vs[vi := Itoa (wrap64 (pv + 1))]) ''.''))"

text \<open>
  The loop of \<open>validUserVersion\<close>. It runs only when both lists have the same length,
  so \<open>uparts[i]\<close> is in range. The error tested after the second conversion is the
  one of the first conversion, which is nil there: a failed conversion of the user's
  component goes unnoticed and counts as its value.
\<close>

function validUserVersion_loop :: "byte list list \<Rightarrow> byte list list \<Rightarrow> nat \<Rightarrow> bool" where
  "validUserVersion_loop cparts uparts i =
     (if i < length cparts
      then (let (c, err) = Atoi (cparts ! i) in
            if err \<noteq> None then False
            else (let u = fst (Atoi (uparts ! i)) in
                  if u > c then True
                  else if u < c then False
                  else validUserVersion_loop cparts uparts (i + 1)))
      else False)"
  by pat_completeness auto
termination
  by (relation "measure (\<lambda>(cparts, uparts, i). length cparts - i)") auto

declare validUserVersion_loop.simps [simp del]

definition validUserVersion :: "byte list \<Rightarrow> byte list \<Rightarrow> bool" where
  "validUserVersion current user =
     (if \<not> validVersion user then False
      else if current = [] \<or> current = user then True
      else (let cparts = Split current (CHR ''.'');
                uparts = Split user (CHR ''.'')
            in if length cparts \<noteq> length uparts then False
               else validUserVersion_loop cparts uparts 0))"

definition assessVersion :: "byte list \<Rightarrow> byte list \<Rightarrow> byte list \<times> bool" where
  "assessVersion cv uv =
     (if uv = [] then (nextVersion cv, True)
      else if \<not> validUserVersion cv uv then ([], False)
      else (uv, True))"

section \<open>The specification's own notions\<close>

text \<open>
  What the specification says \<open>update\<close> returns: the bytes before the offset, one
  space, the prefix \<open>//v\<close> and the version, then the bytes behind the replaced range.
\<close>

definition update_spec :: "byte list \<Rightarrow> nat \<Rightarrow> nat \<Rightarrow> byte list \<Rightarrow> byte list" where
  "update_spec b off len v = take off b @ [spc] @ pre @ v @ drop (off + len) b"

text \<open>
  The version rules of the specification's data model: every dot-separated component
  is a non-empty run of digits, the whole has at least five bytes and starts and ends
  with a digit.
\<close>

definition version_rules :: "byte list \<Rightarrow> bool" where
  "version_rules s =
     (list_all (\<lambda>c. c \<noteq> [] \<and> list_all isnum c) (Split s (CHR ''.'')) \<and>
      5 \<le> length s \<and> isnum (hd s) \<and> isnum (last s))"

text \<open>
  A component that \<open>strconv.Atoi\<close> converts without error: a non-empty run of digits
  whose value fits a Go \<open>int\<close>.
\<close>

definition numeric :: "byte list \<Rightarrow> bool" where
  "numeric c = (c \<noteq> [] \<and> list_all isnum c \<and> int (decval c) \<le> maxInt)"

text \<open>
  The declaration line \<open>module <identifier> //v<version>\<close> of the specification. A
  bare identifier is a non-empty token without whitespace and without two slashes in a
  row that does not start with a quote; a quoted identifier is the text between two
  equal quotes, free of that quote and not ending in a backslash (which the scanner
  would take for an escape of the closing quote).
\<close>

fun no_dslash :: "byte list \<Rightarrow> bool" where
  "no_dslash [] = True"
| "no_dslash [x] = True"
| "no_dslash (x # y # zs) = (\<not> (x = com \<and> y = com) \<and> no_dslash (y # zs))"

definition bare_ident :: "byte list \<Rightarrow> bool" where
  "bare_ident n =
     (n \<noteq> [] \<and> list_all (\<lambda>c. \<not> isspace c) n \<and> no_dslash n \<and> hd n \<noteq> aps \<and> hd n \<noteq> qot)"

definition quoted_ident :: "byte \<Rightarrow> byte list \<Rightarrow> bool" where
  "quoted_ident q n = ((q = aps \<or> q = qot) \<and> q \<notin> set n \<and> (n = [] \<or> last n \<noteq> esc))"

text \<open>
  What \<open>parseMod\<close> does once the keyword has matched at \<open>p\<close> (the inner block of its
  loop), and the keyword search itself: \<open>finds b i p\<close> holds when the loop, started at
  \<open>i\<close>, skips whitespace and comments, passes over every position where the keyword
  does not match, and recognises the keyword at \<open>p\<close>. \<open>finds_parseMod\<close> and
  \<open>parseMod_finds\<close> below tie both to \<open>parseMod\<close>.
\<close>

definition parseDecl ::
  "byte list \<Rightarrow> byte list \<Rightarrow> nat \<Rightarrow> panic + (byte list \<times> byte list \<times> nat \<times> nat)" where
  "parseDecl b sp p =
     (case parseModName b sp (p + 7) of
        Inl e \<Rightarrow> Inl e
      | Inr (name, i1) \<Rightarrow>
          (case parseModVersion b sp i1 of
             Inl e \<Rightarrow> Inl e
           | Inr (version, vlen, i2) \<Rightarrow> Inr (name, version, vlen, i2)))"

inductive finds :: "byte list \<Rightarrow> nat \<Rightarrow> nat \<Rightarrow> bool" where
  here: "i < length b \<Longrightarrow> next_go b i True = Inr p \<Longrightarrow> p + 7 \<le> length b \<Longrightarrow>
         take 7 (drop p b) = mod_kw \<Longrightarrow> finds b i p"
| step: "i < length b \<Longrightarrow> next_go b i True = Inr j \<Longrightarrow> j + 7 \<le> length b \<Longrightarrow>
         take 7 (drop j b) \<noteq> mod_kw \<Longrightarrow> finds b (j + 1) p \<Longrightarrow> finds b i p"

text \<open>
  What the keyword search skips before a declaration (step 1 of the scanner in the
  specification): whitespace and full-line comments, each comment ended by a newline.
\<close>

inductive skippable :: "byte list \<Rightarrow> bool" where
  empty: "skippable []"
| space: "isspace c \<Longrightarrow> skippable xs \<Longrightarrow> skippable (c # xs)"
| comment: "lin \<notin> set cm \<Longrightarrow> skippable xs \<Longrightarrow> skippable (com # com # cm @ lin # xs)"

text \<open>The buffer of the repository's parser test (\<open>testMod\<close> of the test file).\<close>

definition testMod :: "byte list \<Rightarrow> byte list" where
  "testMod v = ''// pub is a simple module for publishing go modules.'' @ [lin] @
     ''module github.com/jcdotter/pub //'' @ v @ [lin, lin] @ ''go 1.17''"

section \<open>The scanner can panic\<close>

text \<open>
  Claim C1: for every buffer and start offset the scanner never panics, also on a
  buffer that ends right after the keyword, inside the identifier or in trailing
  whitespace. The code reads \<open>b[at]\<close> in \<open>parseModName\<close> and \<open>b[pos]\<close> in
  \<open>parseModVersion\<close> without the length test that \<open>search\<close>, \<open>next\<close> and
  \<open>parseMod\<close> make, and \<open>iscomm\<close> reads \<open>b[at+1]\<close> behind a final slash: each of
  the four buffers below stops the scan with an index out of range.
\<close>

theorem parseMod_panics:
  "parseMod (''module foo'' @ [lin]) [] 0 = Inl IndexOutOfRange \<and>
   parseMod ''module foo'' [] 0 = Inl IndexOutOfRange \<and>
   parseMod ''module '' [] 0 = Inl IndexOutOfRange \<and>
   parseMod ''module a/'' [] 0 = Inl IndexOutOfRange"
  by code_simp

section \<open>The splicer: what \<open>update\<close> returns\<close>

lemma write_at_length: "pos + length xs \<le> length a \<Longrightarrow> length (write_at a pos xs) = length a"
  by (simp add: write_at_def)

lemma write_at_window:
  assumes "off + n + length xs \<le> length a"
  shows "take (n + length xs) (drop off (write_at a (off + n) xs)) = take n (drop off a) @ xs"
proof -
  have "drop off (take (off + n) a) = take n (drop off a)"
    by (simp add: drop_take)
  with assms show ?thesis
    by (simp add: write_at_def)
qed

lemma append_go_result:
  assumes wf: "wf_slice h s" and ap: "append_go grow h s xs = (h', s')"
  shows "wf_slice h' s'" and "sl_bytes h' s' = sl_bytes h s @ xs"
    and "length h \<le> length h'" and "s_arr s' = s_arr s \<or> s_arr s' = length h"
proof -
  let ?n = "s_len s + length xs"
  show "wf_slice h' s'"
  proof (cases "?n \<le> s_cap s")
    case True
    with ap have h': "h' = h[s_arr s := write_at (h ! s_arr s) (s_off s + s_len s) xs]"
      and s': "s' = s\<lparr>s_len := ?n\<rparr>"
      by (simp_all add: append_go_def Let_def)
    from wf True show ?thesis
      by (simp add: h' s' wf_slice_def write_at_length)
  next
    case False
    with ap wf show ?thesis
      by (auto simp: append_go_def Let_def wf_slice_def sl_bytes_def)
  qed
  show "sl_bytes h' s' = sl_bytes h s @ xs"
  proof (cases "?n \<le> s_cap s")
    case True
    with ap have h': "h' = h[s_arr s := write_at (h ! s_arr s) (s_off s + s_len s) xs]"
      and s': "s' = s\<lparr>s_len := ?n\<rparr>"
      by (simp_all add: append_go_def Let_def)
    from wf True have "s_off s + s_len s + length xs \<le> length (h ! s_arr s)"
      by (simp add: wf_slice_def)
    from write_at_window [OF this] wf show ?thesis
      by (simp add: h' s' sl_bytes_def wf_slice_def)
  next
    case False
    with ap wf show ?thesis
      by (auto simp: append_go_def Let_def wf_slice_def sl_bytes_def)
  qed
  from ap show "length h \<le> length h'"
    by (auto simp: append_go_def Let_def split: if_splits)
  from ap show "s_arr s' = s_arr s \<or> s_arr s' = length h"
    by (auto simp: append_go_def Let_def split: if_splits)
qed

lemma append_go_frame:
  assumes wt: "wf_slice h t" and ne: "s_arr t \<noteq> s_arr s"
    and ap: "append_go grow h s xs = (h', s')"
  shows "wf_slice h' t" and "sl_bytes h' t = sl_bytes h t"
proof -
  from wt have lt: "s_arr t < length h" by (simp add: wf_slice_def)
  from ap lt ne have same: "h' ! s_arr t = h ! s_arr t"
    by (auto simp: append_go_def Let_def nth_append split: if_splits)
  from ap have "length h \<le> length h'"
    by (auto simp: append_go_def Let_def split: if_splits)
  with wt same show "wf_slice h' t" by (simp add: wf_slice_def)
  from same show "sl_bytes h' t = sl_bytes h t" by (simp add: sl_bytes_def)
qed

lemma make_go_result:
  assumes "make_go h n = (h', v)"
  shows "wf_slice h' v" and "sl_bytes h' v = []" and "s_arr v = length h" and "length h' = Suc (length h)"
  using assms by (auto simp: make_go_def wf_slice_def sl_bytes_def)

lemma make_go_frame:
  assumes "wf_slice h t" and "make_go h n = (h', v)"
  shows "wf_slice h' t" and "sl_bytes h' t = sl_bytes h t"
  using assms by (auto simp: make_go_def wf_slice_def sl_bytes_def nth_append)


lemma slice_to_result:
  assumes "wf_slice h s" and "0 \<le> hi" and "hi \<le> int (s_len s)"
  shows "\<exists>t. slice_to s hi = Inr t \<and> wf_slice h t \<and> s_arr t = s_arr s \<and>
             sl_bytes h t = take (nat hi) (sl_bytes h s)"
  using assms by (auto simp: slice_to_def wf_slice_def sl_bytes_def min_def)

lemma slice_from_result:
  assumes "wf_slice h s" and "0 \<le> lo" and "lo \<le> int (s_len s)"
  shows "\<exists>t. slice_from s lo = Inr t \<and> wf_slice h t \<and> s_arr t = s_arr s \<and>
             sl_bytes h t = drop (nat lo) (sl_bytes h s)"
  using assms by (auto simp: slice_from_def wf_slice_def sl_bytes_def drop_take add.commute)

lemma updateModVersion_bytes:
  assumes wf: "wf_slice h bytes" and p0: "0 \<le> vpos" and l0: "0 \<le> vlen"
    and le: "vpos + vlen \<le> int (s_len bytes)"
  shows "\<exists>h' r. updateModVersion grow h bytes vpos vlen version = Inr (h', r) \<and>
           wf_slice h' r \<and>
           sl_bytes h' r = update_spec (sl_bytes h bytes) (nat vpos) (nat vlen) version"
proof -
  obtain h0 v where mk: "make_go h (s_len bytes) = (h0, v)" by fastforce
  from p0 l0 le have "vpos \<le> int (s_len bytes)" by simp
  from slice_to_result [OF wf p0 this] obtain front where
    fr: "slice_to bytes vpos = Inr front" and fr_arr: "s_arr front = s_arr bytes"
    and fr_wf: "wf_slice h front"
    and fr_b: "sl_bytes h front = take (nat vpos) (sl_bytes h bytes)" by blast
  from p0 l0 have "0 \<le> vpos + vlen" by simp
  from slice_from_result [OF wf this le] obtain rear where
    bk: "slice_from bytes (vpos + vlen) = Inr rear" and bk_arr: "s_arr rear = s_arr bytes"
    and bk_wf: "wf_slice h rear"
    and bk_b: "sl_bytes h rear = drop (nat (vpos + vlen)) (sl_bytes h bytes)" by blast
  obtain h1 a1 where ap1: "append_go grow h0 v [spc] = (h1, a1)" by fastforce
  obtain h2 a2 where ap2: "append_go grow h1 a1 (pre @ version) = (h2, a2)" by fastforce
  obtain h3 a3 where ap3: "append_go grow h2 a2 (sl_bytes h2 rear) = (h3, a3)" by fastforce
  obtain h4 r where ap4: "append_go grow h3 front (sl_bytes h3 a3) = (h4, r)" by fastforce
  from wf have lt: "s_arr bytes < length h" by (simp add: wf_slice_def)
  note v = make_go_result [OF mk]
  note r1 = append_go_result [OF v(1) ap1]
  note r2 = append_go_result [OF r1(1) ap2]
  note r3 = append_go_result [OF r2(1) ap3]
  from v(3,4) r1(3,4) have n1: "length h \<le> s_arr a1" by auto
  from v(4) r1(3) r2(3,4) n1 have n2: "length h \<le> s_arr a2" by auto
  from v(4) r1(3) r2(3) r3(3,4) n2 have n3: "length h \<le> s_arr a3" by auto
  have ne0: "s_arr rear \<noteq> s_arr v" "s_arr front \<noteq> s_arr v"
    using lt v(3) bk_arr fr_arr by simp_all
  have ne1: "s_arr rear \<noteq> s_arr a1" "s_arr front \<noteq> s_arr a1"
    using lt n1 bk_arr fr_arr by simp_all
  have ne2: "s_arr rear \<noteq> s_arr a2" "s_arr front \<noteq> s_arr a2"
    using lt n2 bk_arr fr_arr by simp_all
  have ne3: "s_arr a3 \<noteq> s_arr front"
    using lt n3 fr_arr by simp
  note b0 = make_go_frame [OF bk_wf mk]
  note b1 = append_go_frame [OF b0(1) ne0(1) ap1]
  note b2 = append_go_frame [OF b1(1) ne1(1) ap2]
  note f0 = make_go_frame [OF fr_wf mk]
  note f1 = append_go_frame [OF f0(1) ne0(2) ap1]
  note f2 = append_go_frame [OF f1(1) ne1(2) ap2]
  note f3 = append_go_frame [OF f2(1) ne2(2) ap3]
  note r4 = append_go_result [OF f3(1) ap4]
  have back2: "sl_bytes h2 rear = drop (nat (vpos + vlen)) (sl_bytes h bytes)"
    using b2(2) b1(2) b0(2) bk_b by simp
  have front3: "sl_bytes h3 front = take (nat vpos) (sl_bytes h bytes)"
    using f3(2) f2(2) f1(2) f0(2) fr_b by simp
  have a3b: "sl_bytes h3 a3 = [spc] @ pre @ version @ drop (nat (vpos + vlen)) (sl_bytes h bytes)"
    using r3(2) r2(2) r1(2) v(2) back2 by simp
  have "sl_bytes h4 r = update_spec (sl_bytes h bytes) (nat vpos) (nat vlen) version"
    using r4(2) front3 a3b p0 l0 by (simp add: update_spec_def nat_add_distrib)
  moreover have "updateModVersion grow h bytes vpos vlen version = Inr (h4, r)"
    by (simp add: updateModVersion_def mk fr bk ap1 ap2 ap3 ap4)
  ultimately show ?thesis using r4(1) by blast
qed

section \<open>Versions: syntax, next version, comparison\<close>

lemma Split_not_Nil: "Split s c \<noteq> []"
  by (induction s) (auto split: list.splits)

lemma Split_chars:
  "list_all (\<lambda>c. list_all P c) (Split s d) \<Longrightarrow> list_all (\<lambda>x. P x \<or> x = d) s"
  by (induction s) (auto split: list.splits if_splits)

lemma version_rules_validVersion: "version_rules s \<Longrightarrow> validVersion s"
proof -
  assume a: "version_rules s"
  then have ne: "s \<noteq> []" by (auto simp: version_rules_def)
  from a have "list_all (\<lambda>c. list_all isnum c) (Split s (CHR ''.''))"
    by (auto simp: version_rules_def list_all_iff)
  from Split_chars [OF this] a ne show ?thesis
    by (simp add: validVersion_def version_rules_def hd_conv_nth last_conv_nth)
qed

lemma validVersion_rejects:
  "\<not> validVersion ''.1.0''" "\<not> validVersion ''1.0.''" "\<not> validVersion ''abc''" "\<not> validVersion ''1''"
  by (simp_all add: validVersion_def isnum_def)

lemma Split_no_sep: "c \<notin> set d \<Longrightarrow> Split d c = [d]"
  by (induction d) auto

lemma Split_append_sep: "Split (p @ c # q) c = Split p c @ Split q c"
  by (induction p) (auto split: list.splits simp: Split_not_Nil)

lemma Join_snoc: "xs \<noteq> [] \<Longrightarrow> Join (xs @ [y]) sep = Join xs sep @ sep @ y"
  by (induction xs sep rule: Join.induct) auto

lemma Join_Split: "Join (Split s c) [c] = s"
proof (induction s)
  case Nil
  show ?case by simp
next
  case (Cons x xs)
  show ?case
  proof (cases "x = c")
    case True
    with Cons show ?thesis by (cases "Split xs c") (auto simp: Split_not_Nil)
  next
    case False
    with Cons show ?thesis
      by (cases "Split xs c"; cases "tl (Split xs c)") (auto simp: Split_not_Nil)
  qed
qed

lemma isnum_not_sign: "isnum c \<Longrightarrow> c \<noteq> CHR ''+'' \<and> c \<noteq> CHR ''-'' \<and> c \<noteq> CHR ''.''"
  by (auto simp: isnum_def)

lemma Atoi_numeric: "numeric d \<Longrightarrow> Atoi d = (int (decval d), None)"
proof -
  assume n: "numeric d"
  then obtain x xs where d: "d = x # xs" by (cases d) (auto simp: numeric_def)
  with n have "isnum x" by (simp add: numeric_def)
  from isnum_not_sign [OF this] n d show ?thesis
    by (simp add: Atoi_def numeric_def Let_def)
qed


lemma nextVersion_last_component:
  assumes nd: "CHR ''.'' \<notin> set d" and p: "p = [] \<or> last p = CHR ''.''" and ne: "p @ d \<noteq> []"
  shows "nextVersion (p @ d) = p @ Itoa (wrap64 (fst (Atoi d) + 1))"
proof (cases "p = []")
  case True
  with nd ne show ?thesis
    by (simp add: nextVersion_def Split_no_sep Let_def)
next
  case False
  with p obtain q where q: "p = q @ [CHR ''.'']"
    by (metis append_butlast_last_id)
  let ?vs = "Split q (CHR ''.'')"
  have sp: "Split (q @ CHR ''.'' # d) (CHR ''.'') = ?vs @ [d]"
    using nd by (simp add: Split_append_sep Split_no_sep)
  have "Join ((?vs @ [d])[length ?vs := x]) ''.'' = q @ ''.'' @ x" for x
    by (simp add: Join_snoc Split_not_Nil Join_Split)
  then show ?thesis
    by (simp add: nextVersion_def sp Let_def q)
qed

lemma validUserVersion_loop_spec:
  assumes len: "length cs = length us"
    and nc: "list_all numeric cs" and nu: "list_all numeric us"
  shows "validUserVersion_loop cs us i =
           (\<exists>k. i \<le> k \<and> k < length cs \<and> decval (cs ! k) < decval (us ! k) \<and>
                (\<forall>j. i \<le> j \<and> j < k \<longrightarrow> decval (us ! j) = decval (cs ! j)))"
  using assms
proof (induction cs us i rule: validUserVersion_loop.induct)
  case (1 cparts uparts i)
  show ?case
  proof (cases "i < length cparts")
    case False
    then show ?thesis by (simp add: validUserVersion_loop.simps [of cparts uparts i])
  next
    case lt: True
    with "1.prems" have c: "Atoi (cparts ! i) = (int (decval (cparts ! i)), None)"
      and u: "Atoi (uparts ! i) = (int (decval (uparts ! i)), None)"
      by (simp_all add: Atoi_numeric list_all_length)
    show ?thesis
    proof (cases "decval (uparts ! i) = decval (cparts ! i)")
      case ne: False
      have "(\<exists>k. i \<le> k \<and> k < length cparts \<and> decval (cparts ! k) < decval (uparts ! k) \<and>
                (\<forall>j. i \<le> j \<and> j < k \<longrightarrow> decval (uparts ! j) = decval (cparts ! j)))
            = (decval (cparts ! i) < decval (uparts ! i))"
      proof
        assume "\<exists>k. i \<le> k \<and> k < length cparts \<and> decval (cparts ! k) < decval (uparts ! k) \<and>
                (\<forall>j. i \<le> j \<and> j < k \<longrightarrow> decval (uparts ! j) = decval (cparts ! j))"
        then obtain k where k: "i \<le> k" "decval (cparts ! k) < decval (uparts ! k)"
          "\<forall>j. i \<le> j \<and> j < k \<longrightarrow> decval (uparts ! j) = decval (cparts ! j)" by blast
        with ne have "k = i" by (metis le_neq_implies_less order_refl)
        with k show "decval (cparts ! i) < decval (uparts ! i)" by simp
      next
        assume "decval (cparts ! i) < decval (uparts ! i)"
        with lt show "\<exists>k. i \<le> k \<and> k < length cparts \<and> decval (cparts ! k) < decval (uparts ! k) \<and>
                (\<forall>j. i \<le> j \<and> j < k \<longrightarrow> decval (uparts ! j) = decval (cparts ! j))"
          by (intro exI [of _ i]) simp
      qed
      with lt ne c u show ?thesis
        by (auto simp: validUserVersion_loop.simps [of cparts uparts i])
    next
      case eq: True
      have step: "validUserVersion_loop cparts uparts i = validUserVersion_loop cparts uparts (i + 1)"
        using lt eq c u by (simp add: validUserVersion_loop.simps [of cparts uparts i])
      have ih: "validUserVersion_loop cparts uparts (i + 1) =
           (\<exists>k. i + 1 \<le> k \<and> k < length cparts \<and> decval (cparts ! k) < decval (uparts ! k) \<and>
                (\<forall>j. i + 1 \<le> j \<and> j < k \<longrightarrow> decval (uparts ! j) = decval (cparts ! j)))"
        using "1.IH" [OF lt] c u eq "1.prems" by simp
      have "(\<exists>k. i + 1 \<le> k \<and> k < length cparts \<and> decval (cparts ! k) < decval (uparts ! k) \<and>
                (\<forall>j. i + 1 \<le> j \<and> j < k \<longrightarrow> decval (uparts ! j) = decval (cparts ! j)))
          = (\<exists>k. i \<le> k \<and> k < length cparts \<and> decval (cparts ! k) < decval (uparts ! k) \<and>
                (\<forall>j. i \<le> j \<and> j < k \<longrightarrow> decval (uparts ! j) = decval (cparts ! j)))"
        (is "?L = ?R")
      proof
        assume ?L
        then obtain k where k: "i + 1 \<le> k" "k < length cparts" "decval (cparts ! k) < decval (uparts ! k)"
          "\<forall>j. i + 1 \<le> j \<and> j < k \<longrightarrow> decval (uparts ! j) = decval (cparts ! j)" by blast
        have "\<forall>j. i \<le> j \<and> j < k \<longrightarrow> decval (uparts ! j) = decval (cparts ! j)"
        proof (intro allI impI)
          fix j assume "i \<le> j \<and> j < k"
          then show "decval (uparts ! j) = decval (cparts ! j)"
            using k(4) eq by (cases "j = i") auto
        qed
        with k show ?R by (intro exI [of _ k]) simp
      next
        assume ?R
        then obtain k where k: "i \<le> k" "k < length cparts" "decval (cparts ! k) < decval (uparts ! k)"
          "\<forall>j. i \<le> j \<and> j < k \<longrightarrow> decval (uparts ! j) = decval (cparts ! j)" by blast
        from k(3) eq have "k \<noteq> i" by auto
        with k show ?L by (intro exI [of _ k]) simp
      qed
      with step ih show ?thesis by simp
    qed
  qed
qed

lemma digits_small: "n < 10 \<Longrightarrow> digits n = [char_of (48 + n)]"
  by (subst digits.simps) simp

lemma digits_big:
  "\<not> n < 10 \<Longrightarrow> digits n = digits (n div 10) @ [char_of (48 + n mod 10)]"
  by (subst digits.simps) simp

section \<open>Claims about the splicer\<close>

text \<open>
  Claim C2: \<open>updateModVersion\<close> never mutates the input buffer, and the buffer it
  returns is a new one. The code allocates a new buffer \<open>v\<close> and builds the
  annotation and the tail in it, but its outermost \<open>append\<close> has \<open>bytes[:vpos]\<close>
  as first argument, which keeps the capacity of \<open>bytes\<close>: whenever the result fits
  that capacity, it is written into the caller's array. Replacing \<open>0.1.0\<close> by
  \<open>0.1.1\<close> in an 18-byte buffer of capacity 18 returns a slice on the caller's array
  (array 0), whose bytes have changed.
\<close>

theorem updateModVersion_overwrites_input:
  "updateModVersion grow [''module a //v0.1.0'' @ [lin]]
      \<lparr>s_arr = 0, s_off = 0, s_len = 18, s_cap = 18\<rparr> 8 9 ''0.1.1''
    = Inr ([''module a //v0.1.1'' @ [lin], '' //v0.1.1'' @ [lin] @ replicate 8 (CHR 0x00)],
           \<lparr>s_arr = 0, s_off = 0, s_len = 18, s_cap = 18\<rparr>) \<and>
   sl_bytes [''module a //v0.1.0'' @ [lin]] \<lparr>s_arr = 0, s_off = 0, s_len = 18, s_cap = 18\<rparr>
    = ''module a //v0.1.0'' @ [lin] \<and>
   sl_bytes [''module a //v0.1.1'' @ [lin], '' //v0.1.1'' @ [lin] @ replicate 8 (CHR 0x00)]
      \<lparr>s_arr = 0, s_off = 0, s_len = 18, s_cap = 18\<rparr>
    = ''module a //v0.1.1'' @ [lin]"
  by (simp add: updateModVersion_def make_go_def slice_to_def slice_from_def append_go_def
      Let_def sl_bytes_def write_at_def pre_def spc_def lin_def)

text \<open>
  Claim C5: for a buffer, an offset and a length with
  \<open>0 \<le> versionOffset \<le> versionOffset + versionLength \<le> len(buffer)\<close>, \<open>update\<close>
  returns, and the bytes of the buffer it returns are the bytes before the offset, one
  space, \<open>//v\<close> and the new version, then the bytes from
  \<open>versionOffset + versionLength\<close> on (\<open>update_spec\<close>); with length 0 nothing is
  dropped and the annotation is inserted at the offset. This holds for every growth
  policy of \<open>append\<close> and whether or not the result shares the caller's array.
\<close>

theorem updateModVersion_content:
  assumes "wf_slice h bytes" and "0 \<le> vpos" and "vpos \<le> vpos + vlen"
    and "vpos + vlen \<le> int (s_len bytes)"
  shows "\<exists>h' r. updateModVersion grow h bytes vpos vlen version = Inr (h', r) \<and>
           sl_bytes h' r =
             take (nat vpos) (sl_bytes h bytes) @ [spc] @ pre @ version @
             drop (nat vpos + nat vlen) (sl_bytes h bytes)"
proof -
  from assms(3) have "0 \<le> vlen" by simp
  from updateModVersion_bytes [OF assms(1,2) this assms(4), of grow version]
  obtain h' r where "updateModVersion grow h bytes vpos vlen version = Inr (h', r)"
    and "sl_bytes h' r = update_spec (sl_bytes h bytes) (nat vpos) (nat vlen) version"
    by blast
  then show ?thesis by (auto simp: update_spec_def)
qed

theorem updateModVersion_content_witness:
  "wf_slice [''module a'' @ [lin] @ ''go 1.17''] \<lparr>s_arr = 0, s_off = 0, s_len = 16, s_cap = 16\<rparr> \<and>
   (\<exists>h' r. updateModVersion (\<lambda>c n. 2 * c) [''module a'' @ [lin] @ ''go 1.17'']
              \<lparr>s_arr = 0, s_off = 0, s_len = 16, s_cap = 16\<rparr> 8 0 ''0.1.1'' = Inr (h', r) \<and>
            sl_bytes h' r = ''module a //v0.1.1'' @ [lin] @ ''go 1.17'')"
proof -
  have wf: "wf_slice [''module a'' @ [lin] @ ''go 1.17''] \<lparr>s_arr = 0, s_off = 0, s_len = 16, s_cap = 16\<rparr>"
    by (simp add: wf_slice_def)
  from updateModVersion_content [OF wf, of 8 0 "\<lambda>c n. 2 * c" "''0.1.1''"] wf show ?thesis
    by (simp add: sl_bytes_def pre_def spc_def lin_def)
qed

section \<open>Claims about versions\<close>

text \<open>
  Claim C6: \<open>validVersion\<close> accepts a string exactly when it obeys the version rules
  of the specification, among them that every dot-separated component is a non-empty
  run of digits. The code tests the first and the last byte for a digit, which rules
  out an empty first or last component, and then only that every byte is a digit or a
  dot: an empty component in the middle passes. (Every string the rules accept is
  accepted, \<open>version_rules_validVersion\<close>, and the four strings the specification
  lists are rejected, \<open>validVersion_rejects\<close>.)
\<close>

theorem validVersion_empty_component:
  "validVersion ''1..23'' \<and> \<not> version_rules ''1..23''"
  by (simp add: validVersion_def version_rules_def isnum_def)

text \<open>
  Claim C7: \<open>decide(cv, "")\<close> is always valid; it is \<open>0.0.0\<close> for the empty current
  version and otherwise the current version with its last component incremented. As
  stated, for every current version, this fails when the last component is the
  largest Go \<open>int\<close>: the increment wraps around.
\<close>

theorem assessVersion_next_overflow:
  "assessVersion ''0.0.9223372036854775807'' [] = (''0.0.-9223372036854775808'', True)"
  by (simp add: assessVersion_def nextVersion_def Atoi_def decval_def isnum_def Itoa_def
      wrap64_def maxInt_def minInt_def digits_small digits_big char_of_def bit_0)

text \<open>
  Claim C7, amended: the result is always valid; for the empty current version it is
  \<open>0.0.0\<close>; and for a current version \<open>p @ d\<close> whose last component \<open>d\<close> (\<open>p\<close> is
  empty or ends with a dot) is a non-empty run of digits with a value below the
  largest \<open>int\<close>, it is \<open>p\<close> followed by the decimal representation of that value
  plus one.
\<close>

theorem assessVersion_next:
  "snd (assessVersion cv []) = True \<and>
   assessVersion [] [] = (''0.0.0'', True) \<and>
   (numeric d \<and> int (decval d) < maxInt \<and> (p = [] \<or> last p = CHR ''.'') \<longrightarrow>
      assessVersion (p @ d) [] = (p @ Itoa (int (decval d) + 1), True))"
proof -
  have a: "snd (assessVersion cv []) = True" by (simp add: assessVersion_def)
  have b: "assessVersion [] [] = (''0.0.0'', True)"
    by (simp add: assessVersion_def nextVersion_def versionDefault_def)
  have c: "assessVersion (p @ d) [] = (p @ Itoa (int (decval d) + 1), True)"
    if n: "numeric d" and lt: "int (decval d) < maxInt" and p: "p = [] \<or> last p = CHR ''.''"
  proof -
    from n have "\<forall>x \<in> set d. isnum x" by (simp add: numeric_def list_all_iff)
    with isnum_not_sign have nd: "CHR ''.'' \<notin> set d" by blast
    from n have ne: "p @ d \<noteq> []" by (simp add: numeric_def)
    from lt have "wrap64 (int (decval d) + 1) = int (decval d) + 1"
      by (simp add: wrap64_def maxInt_def)
    with nextVersion_last_component [OF nd p ne] Atoi_numeric [OF n] show ?thesis
      by (simp add: assessVersion_def)
  qed
  from a b c show ?thesis by blast
qed

theorem assessVersion_next_witness:
  "numeric ''0'' \<and> int (decval ''0'') < maxInt \<and> last ''0.1.'' = CHR ''.'' \<and>
   assessVersion ''0.1.0'' [] = (''0.1.1'', True) \<and>
   assessVersion [] [] = (''0.0.0'', True)"
  using assessVersion_next [of "[]" "''0''" "''0.1.''"]
  by (simp add: numeric_def isnum_def decval_def maxInt_def Itoa_def digits_small
      char_of_def bit_0)

text \<open>
  Claim C8: a user version that fails the syntax rules is rejected; one that passes
  and differs from a non-empty current version, both with non-empty digit runs as
  components, is rejected when the counts of components differ and otherwise accepted
  exactly when, at the first index where the components differ as integers, the
  user's is greater. As stated this fails for components beyond the range of a Go
  \<open>int\<close>: the conversion of the current version's first component fails and the user
  version is rejected, although the versions first differ in the last component,
  where the user's is greater.
\<close>

theorem assessVersion_user_overflow:
  "assessVersion ''9223372036854775808.0.0'' ''9223372036854775808.0.1'' = ([], False) \<and>
   version_rules ''9223372036854775808.0.0'' \<and> version_rules ''9223372036854775808.0.1'' \<and>
   Split ''9223372036854775808.0.0'' (CHR ''.'') = [''9223372036854775808'', ''0'', ''0''] \<and>
   Split ''9223372036854775808.0.1'' (CHR ''.'') = [''9223372036854775808'', ''0'', ''1''] \<and>
   decval ''0'' < decval ''1''"
  by (simp add: assessVersion_def validUserVersion_def validVersion_def
      validUserVersion_loop.simps [of _ _ 0] Atoi_def decval_def isnum_def maxInt_def
      minInt_def version_rules_def)

text \<open>
  Claim C8, amended: the same, for components that are non-empty digit runs with values
  in the range of a Go \<open>int\<close> (\<open>numeric\<close>). A non-empty user version that fails
  \<open>validVersion\<close> is rejected whatever the current version is.
\<close>

theorem assessVersion_user:
  "(uv \<noteq> [] \<and> \<not> validVersion uv \<longrightarrow> assessVersion cv uv = ([], False)) \<and>
   (uv \<noteq> [] \<and> validVersion uv \<and> cv \<noteq> [] \<and> cv \<noteq> uv \<and>
    list_all numeric (Split cv (CHR ''.'')) \<and> list_all numeric (Split uv (CHR ''.'')) \<longrightarrow>
      assessVersion cv uv =
        (if length (Split cv (CHR ''.'')) = length (Split uv (CHR ''.'')) \<and>
            (\<exists>k < length (Split cv (CHR ''.'')).
               decval (Split cv (CHR ''.'') ! k) < decval (Split uv (CHR ''.'') ! k) \<and>
               (\<forall>j < k. decval (Split uv (CHR ''.'') ! j) = decval (Split cv (CHR ''.'') ! j)))
         then (uv, True) else ([], False)))"
proof -
  let ?cs = "Split cv (CHR ''.'')" and ?us = "Split uv (CHR ''.'')"
  have a: "assessVersion cv uv = ([], False)" if "uv \<noteq> []" "\<not> validVersion uv"
    using that by (simp add: assessVersion_def validUserVersion_def)
  have b: "assessVersion cv uv =
        (if length ?cs = length ?us \<and>
            (\<exists>k < length ?cs. decval (?cs ! k) < decval (?us ! k) \<and>
               (\<forall>j < k. decval (?us ! j) = decval (?cs ! j)))
         then (uv, True) else ([], False))"
    if h: "uv \<noteq> []" "validVersion uv" "cv \<noteq> []" "cv \<noteq> uv"
      "list_all numeric ?cs" "list_all numeric ?us"
  proof (cases "length ?cs = length ?us")
    case False
    with h show ?thesis by (simp add: assessVersion_def validUserVersion_def Let_def)
  next
    case True
    from validUserVersion_loop_spec [OF True h(5) h(6), of 0] True h show ?thesis
      by (simp add: assessVersion_def validUserVersion_def Let_def)
  qed
  from a b show ?thesis by blast
qed

theorem assessVersion_user_witness:
  "validVersion ''0.1.1'' \<and>
   list_all numeric (Split ''0.1.0'' (CHR ''.'')) \<and>
   list_all numeric (Split ''0.1.1'' (CHR ''.'')) \<and>
   list_all numeric (Split ''0.0.9'' (CHR ''.'')) \<and>
   assessVersion ''0.1.0'' ''0.1.1'' = (''0.1.1'', True) \<and>
   assessVersion ''0.1.0'' ''0.0.9'' = ([], False) \<and>
   \<not> validVersion ''v.1.1'' \<and>
   assessVersion ''0.1.0'' ''v.1.1'' = ([], False)"
proof -
  have n: "list_all numeric (Split ''0.1.0'' (CHR ''.''))"
    "list_all numeric (Split ''0.1.1'' (CHR ''.''))"
    "list_all numeric (Split ''0.0.9'' (CHR ''.''))"
    by (simp_all add: numeric_def isnum_def decval_def maxInt_def)
  have v: "validVersion ''0.1.1''" "validVersion ''0.0.9''" "\<not> validVersion ''v.1.1''"
    by (simp_all add: validVersion_def isnum_def)
  have up: "\<exists>k<Suc (Suc (Suc 0)). decval ([''0'', ''1'', ''0''] ! k) < decval ([''0'', ''1'', ''1''] ! k) \<and>
      (\<forall>j<k. decval ([''0'', ''1'', ''1''] ! j) = decval ([''0'', ''1'', ''0''] ! j))"
    by (intro exI [of _ "Suc (Suc 0)"]) (simp add: decval_def less_Suc_eq)
  have down: "\<not> (\<exists>k<Suc (Suc (Suc 0)). decval ([''0'', ''1'', ''0''] ! k) < decval ([''0'', ''0'', ''9''] ! k) \<and>
      (\<forall>j<k. decval ([''0'', ''0'', ''9''] ! j) = decval ([''0'', ''1'', ''0''] ! j)))"
    by (auto simp: decval_def less_Suc_eq)
  have a: "assessVersion ''0.1.0'' ''0.1.1'' = (''0.1.1'', True)"
    using assessVersion_user [of "''0.1.1''" "''0.1.0''"] n v up by simp
  have b: "assessVersion ''0.1.0'' ''0.0.9'' = ([], False)"
    using assessVersion_user [of "''0.0.9''" "''0.1.0''"] n v down by simp
  have c: "assessVersion ''0.1.0'' ''v.1.1'' = ([], False)"
    using assessVersion_user [of "''v.1.1''" "''0.1.0''"] v by simp
  from n v a b c show ?thesis by simp
qed

section \<open>The scanner on a declaration line\<close>

lemma slice_in_range:
  "lo \<le> hi \<Longrightarrow> hi \<le> length b \<Longrightarrow> slice b sp lo hi = Inr (take (hi - lo) (drop lo b))"
  by (simp add: slice_def)

lemma finds_parseMod: "finds b i p \<Longrightarrow> parseMod b sp i = parseDecl b sp p"
proof (induction rule: finds.induct)
  case (here i b p)
  then show ?case
    by (subst parseMod.simps) (simp add: slice_in_range parseDecl_def)
next
  case (step i b j p)
  then show ?case
    by (subst parseMod.simps) (simp add: slice_in_range)
qed

lemma search_append_found:
  "c \<notin> set m \<Longrightarrow> search c (xs @ m @ c # ys) (length xs) = length xs + length m"
proof (induction m arbitrary: xs)
  case Nil
  show ?case by (subst search.simps) simp
next
  case (Cons x m)
  from Cons.prems have "search c ((xs @ [x]) @ m @ c # ys) (length (xs @ [x])) = length (xs @ [x]) + length m"
    by (intro Cons.IH) simp
  moreover from Cons.prems have "search c (xs @ (x # m) @ c # ys) (length xs)
      = search c (xs @ (x # m) @ c # ys) (length xs + 1)"
    by (subst search.simps) auto
  ultimately show ?case by simp
qed

lemma search_append_end:
  "c \<notin> set m \<Longrightarrow> search c (xs @ m) (length xs) = length xs + length m"
proof (induction m arbitrary: xs)
  case Nil
  show ?case by (subst search.simps) simp
next
  case (Cons x m)
  from Cons.prems have "search c ((xs @ [x]) @ m) (length (xs @ [x])) = length (xs @ [x]) + length m"
    by (intro Cons.IH) simp
  moreover from Cons.prems have "search c (xs @ x # m) (length xs) = search c (xs @ x # m) (length xs + 1)"
    by (subst search.simps) auto
  ultimately show ?case by simp
qed

lemma next_go_spaces:
  "list_all isspace ws \<Longrightarrow> \<not> isspace y \<Longrightarrow>
   next_go (xs @ ws @ y # ys) (length xs) False = Inr (length xs + length ws)"
proof (induction ws arbitrary: xs)
  case Nil
  then show ?case by (subst next_go.simps) simp
next
  case (Cons x ws)
  from Cons.prems have "next_go ((xs @ [x]) @ ws @ y # ys) (length (xs @ [x])) False
      = Inr (length (xs @ [x]) + length ws)"
    by (intro Cons.IH) simp_all
  moreover from Cons.prems have "next_go (xs @ (x # ws) @ y # ys) (length xs) False
      = next_go (xs @ (x # ws) @ y # ys) (length xs + 1) False"
    by (subst next_go.simps) simp
  ultimately show ?case by simp
qed

lemma isspace_not_com: "isspace c \<Longrightarrow> c \<noteq> com"
  by (auto simp: isspace_def com_def ret_def lin_def tab_def spc_def)

lemma parseModName_loop_bare:
  "list_all (\<lambda>c. \<not> isspace c) nm \<Longrightarrow> no_dslash nm \<Longrightarrow> isspace t \<Longrightarrow>
   parseModName_loop (xs @ nm @ t # ys) (length xs) = Inr (length xs + length nm)"
proof (induction nm arbitrary: xs)
  case Nil
  then show ?case by (subst parseModName_loop.simps) simp
next
  case (Cons x nm)
  from Cons.prems have nd: "no_dslash nm" by (cases nm) auto
  from Cons.prems nd have "parseModName_loop ((xs @ [x]) @ nm @ t # ys) (length (xs @ [x]))
      = Inr (length (xs @ [x]) + length nm)"
    by (intro Cons.IH) simp_all
  moreover have "iscomm (xs @ (x # nm) @ t # ys) (length xs) = Inr False"
  proof (cases nm)
    case Nil
    with Cons.prems isspace_not_com [of t] show ?thesis
      by (auto simp: iscomm_def index_def nth_append)
  next
    case (Cons y zs)
    with Cons.prems show ?thesis
      by (auto simp: iscomm_def index_def nth_append)
  qed
  with Cons.prems have "parseModName_loop (xs @ (x # nm) @ t # ys) (length xs)
      = parseModName_loop (xs @ (x # nm) @ t # ys) (length xs + 1)"
    by (subst parseModName_loop.simps) simp
  ultimately show ?case by simp
qed


lemma quote_facts: "q = aps \<or> q = qot \<Longrightarrow> \<not> isspace q \<and> q \<noteq> esc \<and> q \<noteq> com"
  by (auto simp: isspace_def aps_def qot_def esc_def com_def ret_def lin_def tab_def spc_def)

lemma next_go_stay: "i < length b \<Longrightarrow> \<not> isspace (b ! i) \<Longrightarrow> next_go b i False = Inr i"
  by (subst next_go.simps) simp

lemma parseModName_unquoted:
  assumes "next_go b a0 False = Inr at" and "at < length b"
    and "b ! at \<noteq> aps" and "b ! at \<noteq> qot"
    and "parseModName_loop b at = Inr i" and "at \<le> i" and "i \<le> length b"
  shows "parseModName b sp a0 = Inr (take (i - at) (drop at b), i)"
  using assms by (simp add: parseModName_def index_def slice_in_range)

lemma parseModName_closed:
  assumes "next_go b a0 False = Inr at" and "at < length b"
    and "b ! at = aps \<or> b ! at = qot"
    and "search (b ! at) b (at + 1) = i" and "i \<le> length b" and "b ! (i - 1) \<noteq> esc"
  shows "parseModName b sp a0 = Inr (take (i - (at + 1)) (drop (at + 1) b), i + 1)"
proof -
  from search_ge [of "at + 1" "b ! at" b] assms(4) have "at + 1 \<le> i" by simp
  with assms show ?thesis
    by (auto simp: parseModName_def index_def slice_in_range Let_def)
qed

lemma parseModVersion_valid:
  assumes "next_go b at False = Inr pos" and "pos + 3 \<le> length b"
    and "take 3 (drop pos b) = pre"
    and "search lin b (pos + 3) = i" and "i \<le> length b"
    and "validVersion (take (i - (pos + 3)) (drop (pos + 3) b))"
  shows "parseModVersion b sp at = Inr (take (i - (pos + 3)) (drop (pos + 3) b), i - at, at)"
proof -
  from search_ge [of "pos + 3" lin b] assms(4) have le: "pos + 3 \<le> i" by simp
  from assms(2) have "take 3 (drop pos b) ! 0 = b ! pos" by simp
  with assms(3) have c: "b ! pos = com" by (simp add: pre_def com_def)
  have lp: "length pre = 3" by (simp add: pre_def)
  from assms le c show ?thesis
    by (simp add: parseModVersion_def index_def slice_in_range Let_def lp)
qed

lemma parseModName_bare:
  assumes id: "bare_ident nm" and t: "isspace t"
  shows "parseModName (xs @ nm @ t # ys) sp (length xs) = Inr (nm, length xs + length nm)"
proof -
  let ?b = "xs @ nm @ t # ys"
  from id obtain x nm' where nm: "nm = x # nm'" by (cases nm) (auto simp: bare_ident_def)
  with id have x: "\<not> isspace x" "x \<noteq> aps" "x \<noteq> qot" by (simp_all add: bare_ident_def)
  have at: "?b ! length xs = x" by (simp add: nm)
  have lt: "length xs < length ?b" by simp
  from x(1) have n: "next_go ?b (length xs) False = Inr (length xs)"
    by (intro next_go_stay) (simp_all add: nm)
  from id t have l: "parseModName_loop ?b (length xs) = Inr (length xs + length nm)"
    by (intro parseModName_loop_bare) (simp_all add: bare_ident_def)
  from x(2,3) at have q: "?b ! length xs \<noteq> aps" "?b ! length xs \<noteq> qot" by simp_all
  from parseModName_unquoted [OF n lt q l, of sp] show ?thesis by simp
qed

lemma parseModName_quoted:
  assumes id: "quoted_ident q nm"
  shows "parseModName (xs @ q # nm @ q # ys) sp (length xs) = Inr (nm, length xs + length nm + 2)"
proof -
  let ?b = "xs @ q # nm @ q # ys"
  from id have q: "q = aps \<or> q = qot" and nin: "q \<notin> set nm" and l: "nm = [] \<or> last nm \<noteq> esc"
    by (simp_all add: quoted_ident_def)
  note qf = quote_facts [OF q]
  have at: "?b ! length xs = q" by simp
  have lt: "length xs < length ?b" by simp
  from qf have n: "next_go ?b (length xs) False = Inr (length xs)"
    by (intro next_go_stay) simp_all
  have "search q ((xs @ [q]) @ nm @ q # ys) (length (xs @ [q])) = length (xs @ [q]) + length nm"
    using nin by (rule search_append_found)
  then have se: "search (?b ! length xs) ?b (length xs + 1) = length xs + 1 + length nm" by simp
  have prev: "?b ! (length xs + 1 + length nm - 1) \<noteq> esc"
  proof (cases "nm = []")
    case True
    with qf show ?thesis by simp
  next
    case False
    with l have "last nm \<noteq> esc" by simp
    moreover have "?b ! (length xs + length nm) = last nm"
      using False by (simp add: nth_append last_conv_nth nth_Cons')
    ultimately show ?thesis by simp
  qed
  from q at have qq: "?b ! length xs = aps \<or> ?b ! length xs = qot" by simp
  have le: "length xs + 1 + length nm \<le> length ?b" by simp
  from parseModName_closed [OF n lt qq se le prev, of sp] show ?thesis by simp
qed

lemma validVersion_chars:
  assumes "validVersion v"
  shows "lin \<notin> set v" and "4 < length v"
proof -
  from assms have a: "\<forall>c \<in> set v. isnum c \<or> c = CHR ''.''" and b: "4 < length v"
    by (auto simp: validVersion_def list_all_iff split: if_splits)
  have "\<not> isnum lin" "lin \<noteq> CHR ''.''" by (simp_all add: isnum_def lin_def)
  with a show "lin \<notin> set v" by blast
  from b show "4 < length v" .
qed

lemma parseModVersion_annotated:
  assumes ws: "list_all isspace ws" and v: "validVersion v"
    and rest: "rest = [] \<or> hd rest = lin"
  shows "parseModVersion (xs @ ws @ pre @ v @ rest) sp (length xs)
           = Inr (v, length ws + 3 + length v, length xs)"
proof -
  let ?b = "xs @ ws @ pre @ v @ rest"
  let ?w = "length xs + length ws"
  have lp: "length pre = 3" by (simp add: pre_def)
  have b1: "?b = xs @ ws @ com # (''/v'' @ v @ rest)" by (simp add: pre_def com_def)
  have "\<not> isspace com" using isspace_not_com by blast
  with ws have n: "next_go ?b (length xs) False = Inr ?w"
    unfolding b1 by (rule next_go_spaces)
  have le: "?w + 3 \<le> length ?b" by (simp add: lp)
  have pr: "take 3 (drop ?w ?b) = pre" by (simp add: lp)
  note vc = validVersion_chars [OF v]
  have se: "search lin ?b (?w + 3) = ?w + 3 + length v"
  proof (cases rest)
    case Nil
    have "search lin ((xs @ ws @ pre) @ v) (length (xs @ ws @ pre)) = length (xs @ ws @ pre) + length v"
      using vc(1) by (rule search_append_end)
    with Nil show ?thesis by (simp add: add.assoc lp)
  next
    case (Cons r rs)
    with rest have r: "r = lin" by simp
    have "search lin ((xs @ ws @ pre) @ v @ lin # rs) (length (xs @ ws @ pre))
        = length (xs @ ws @ pre) + length v"
      using vc(1) by (rule search_append_found)
    with Cons r show ?thesis by (simp add: add.assoc lp)
  qed
  have le2: "?w + 3 + length v \<le> length ?b" by (simp add: lp)
  have tk: "take (?w + 3 + length v - (?w + 3)) (drop (?w + 3) ?b) = v" by (simp add: lp)
  from v tk have vv: "validVersion (take (?w + 3 + length v - (?w + 3)) (drop (?w + 3) ?b))"
    by simp
  from parseModVersion_valid [OF n le pr se le2 vv, of sp] tk show ?thesis by simp
qed


lemma parseDecl_annotated:
  assumes b: "b = pfx @ mod_kw @ idt @ ws @ pre @ ver @ rest"
    and id: "idt = name \<and> bare_ident name \<or> idt = q # name @ [q] \<and> quoted_ident q name"
    and ws: "ws \<noteq> []" "list_all isspace ws"
    and v: "validVersion ver"
    and rest: "rest = [] \<or> hd rest = lin"
  shows "parseDecl b sp (length pfx)
           = Inr (name, ver, length ws + 3 + length ver, length pfx + 7 + length idt)"
proof -
  have lm: "length mod_kw = 7" by (simp add: mod_kw_def)
  from ws obtain t ws' where wsc: "ws = t # ws'" and t: "isspace t"
    by (cases ws) auto
  have nm: "parseModName b sp (length pfx + 7) = Inr (name, length pfx + 7 + length idt)"
  proof -
    from id show ?thesis
    proof
      assume a: "idt = name \<and> bare_ident name"
      then have "parseModName ((pfx @ mod_kw) @ name @ t # (ws' @ pre @ ver @ rest)) sp
                   (length (pfx @ mod_kw)) = Inr (name, length (pfx @ mod_kw) + length name)"
        using t by (intro parseModName_bare) simp_all
      with a show ?thesis by (simp add: b wsc lm)
    next
      assume a: "idt = q # name @ [q] \<and> quoted_ident q name"
      then have "parseModName ((pfx @ mod_kw) @ q # name @ q # (ws @ pre @ ver @ rest)) sp
                   (length (pfx @ mod_kw)) = Inr (name, length (pfx @ mod_kw) + length name + 2)"
        by (intro parseModName_quoted) simp
      with a show ?thesis by (simp add: b lm)
    qed
  qed
  have "parseModVersion ((pfx @ mod_kw @ idt) @ ws @ pre @ ver @ rest) sp (length (pfx @ mod_kw @ idt))
          = Inr (ver, length ws + 3 + length ver, length (pfx @ mod_kw @ idt))"
    using ws(2) v rest by (rule parseModVersion_annotated)
  then have vr: "parseModVersion b sp (length pfx + 7 + length idt)
          = Inr (ver, length ws + 3 + length ver, length pfx + 7 + length idt)"
    by (simp add: b lm add.assoc)
  show ?thesis by (simp add: parseDecl_def nm vr)
qed

lemma updateModVersion_bytes_nat:
  assumes "wf_slice h s" and "off + n \<le> s_len s"
  shows "\<exists>h' r. updateModVersion grow h s (int off) (int n) v = Inr (h', r) \<and>
           wf_slice h' r \<and> sl_bytes h' r = update_spec (sl_bytes h s) off n v"
  using updateModVersion_bytes [OF assms(1), of "int off" "int n" grow v] assms(2) by simp

lemma scan_annotated_line:
  assumes b: "b = pfx @ mod_kw @ idt @ ws @ pre @ ver @ rest"
    and id: "idt = name \<and> bare_ident name \<or> idt = q # name @ [q] \<and> quoted_ident q name"
    and ws: "ws \<noteq> []" "list_all isspace ws"
    and v: "validVersion ver"
    and rest: "rest = [] \<or> hd rest = lin"
    and f: "finds b at (length pfx)"
    and wf: "wf_slice h s" and sb: "sl_bytes h s = b"
  shows "parseMod b sp at
           = Inr (name, ver, length ws + 3 + length ver, length pfx + 7 + length idt)"
    and "take (length ws + 3 + length ver) (drop (length pfx + 7 + length idt) b)
           = ws @ pre @ ver"
    and "\<exists>h' r. updateModVersion grow h s (int (length pfx + 7 + length idt))
                  (int (length ws + 3 + length ver)) v' = Inr (h', r) \<and>
                sl_bytes h' r = pfx @ mod_kw @ idt @ [spc] @ pre @ v' @ rest"
proof -
  have lm: "length mod_kw = 7" by (simp add: mod_kw_def)
  have lp: "length pre = 3" by (simp add: pre_def)
  from finds_parseMod [OF f] parseDecl_annotated [OF b id ws v rest]
  show "parseMod b sp at
           = Inr (name, ver, length ws + 3 + length ver, length pfx + 7 + length idt)"
    by simp
  have b2: "b = (pfx @ mod_kw @ idt) @ (ws @ pre @ ver) @ rest" by (simp add: b)
  have l1: "length (pfx @ mod_kw @ idt) = length pfx + 7 + length idt" by (simp add: lm)
  have l2: "length (ws @ pre @ ver) = length ws + 3 + length ver" by (simp add: lp)
  show "take (length ws + 3 + length ver) (drop (length pfx + 7 + length idt) b)
           = ws @ pre @ ver"
    unfolding b2 l1 [symmetric] l2 [symmetric] by simp
  have le: "(length pfx + 7 + length idt) + (length ws + 3 + length ver) \<le> s_len s"
  proof -
    from wf sb have "length b \<le> s_len s" by (auto simp: sl_bytes_def wf_slice_def)
    then show ?thesis by (simp add: b lm lp)
  qed
  from updateModVersion_bytes_nat [OF wf le, of grow v']
  obtain h' r where u: "updateModVersion grow h s (int (length pfx + 7 + length idt))
                  (int (length ws + 3 + length ver)) v' = Inr (h', r)"
    and c: "sl_bytes h' r = update_spec (sl_bytes h s) (length pfx + 7 + length idt)
              (length ws + 3 + length ver) v'"
    by blast
  have "update_spec b (length pfx + 7 + length idt) (length ws + 3 + length ver) v'
          = pfx @ mod_kw @ idt @ [spc] @ pre @ v' @ rest"
    unfolding b2 update_spec_def l1 [symmetric] l2 [symmetric] by simp
  with c sb have "sl_bytes h' r = pfx @ mod_kw @ idt @ [spc] @ pre @ v' @ rest" by simp
  with u show "\<exists>h' r. updateModVersion grow h s (int (length pfx + 7 + length idt))
                  (int (length ws + 3 + length ver)) v' = Inr (h', r) \<and>
                sl_bytes h' r = pfx @ mod_kw @ idt @ [spc] @ pre @ v' @ rest" by blast
qed

lemma finds_testMod: "finds (testMod ''v0.1.0'') 0 53"
  by (rule finds.here) code_simp+

lemma bare_pub: "bare_ident ''github.com/jcdotter/pub''"
  by (simp add: bare_ident_def isspace_def com_def aps_def qot_def ret_def lin_def tab_def spc_def)

lemma valid_010: "validVersion ''0.1.0''" "validVersion ''1.0.0''" "validVersion ''1.2.3''"
  by (simp_all add: validVersion_def isnum_def)

lemma next_go_skippable:
  "skippable pfx \<Longrightarrow> \<not> isspace y \<Longrightarrow> y \<noteq> com \<Longrightarrow>
   next_go (xs @ pfx @ y # ys) (length xs) True = Inr (length xs + length pfx)"
proof (induction pfx arbitrary: xs rule: skippable.induct)
  case empty
  then show ?case by (subst next_go.simps) simp
next
  case (space c pfx)
  from space.IH [OF space.prems, of "xs @ [c]"]
  have "next_go (xs @ (c # pfx) @ y # ys) (length xs + 1) True = Inr (length xs + length (c # pfx))"
    by simp
  moreover from space.hyps(1) isspace_not_com [of c]
  have "next_go (xs @ (c # pfx) @ y # ys) (length xs) True
      = next_go (xs @ (c # pfx) @ y # ys) (length xs + 1) True"
    by (subst next_go.simps) simp
  ultimately show ?case by simp
next
  case (comment cm pfx)
  define b where "b = xs @ (com # com # cm @ lin # pfx) @ y # ys"
  have lt: "length xs < length b" and at: "b ! length xs = com"
    by (simp_all add: b_def)
  have ic: "iscomm b (length xs) = Inr True"
    by (simp add: b_def iscomm_def index_def nth_append)
  have "search lin ((xs @ [com, com]) @ cm @ lin # (pfx @ y # ys)) (length (xs @ [com, com]))
      = length (xs @ [com, com]) + length cm"
    using comment.hyps(1) by (rule search_append_found)
  then have se: "search lin b (length xs + 2) = length xs + 2 + length cm"
    by (simp add: b_def)
  from ic se have sk: "skipComment b (length xs) = Inr (length xs + 2 + length cm)"
    by (simp add: skipComment_def)
  from comment.IH [OF comment.prems, of "xs @ com # com # cm @ [lin]"]
  have "next_go b (length xs + 2 + length cm + 1) True
      = Inr (length xs + length (com # com # cm @ lin # pfx))"
    by (simp add: b_def)
  moreover have "next_go b (length xs) True = next_go b (length xs + 2 + length cm + 1) True"
    by (subst next_go.simps) (simp add: lt at sk)
  ultimately show ?case by (simp add: b_def)
qed

lemma finds_after_skippable:
  assumes "skippable pfx"
  shows "finds (pfx @ mod_kw @ rest) 0 (length pfx)"
proof -
  let ?b = "pfx @ mod_kw @ rest"
  have b: "?b = [] @ pfx @ CHR ''m'' # (''odule '' @ rest)" by (simp add: mod_kw_def)
  have "\<not> isspace (CHR ''m'')" "CHR ''m'' \<noteq> com"
    by (simp_all add: isspace_def com_def ret_def lin_def tab_def spc_def)
  from next_go_skippable [OF assms this, of "[]" "''odule '' @ rest"]
  have n: "next_go ?b 0 True = Inr (length pfx)" unfolding b by simp
  have l: "0 < length ?b" by (simp add: mod_kw_def)
  have k: "length pfx + 7 \<le> length ?b" by (simp add: mod_kw_def)
  have t: "take 7 (drop (length pfx) ?b) = mod_kw" by (simp add: mod_kw_def)
  from l n k t show ?thesis by (rule finds.here)
qed

text \<open>
  Claim C3: on a buffer with a well-formed line \<open>module <identifier> //vX.Y.Z\<close>, the
  identifier bare or quoted (a quoted one may hold whitespace), the scan returns the
  identifier as name and \<open>X.Y.Z\<close> as version; offset and length span the separating
  space and the annotation up to the end of the line, and \<open>update\<close> with the same
  version over that span gives back the same bytes. The line is the one the keyword
  search recognises (\<open>finds\<close>), it ends at a newline or at the end of the buffer,
  and the version is any string \<open>validVersion\<close> accepts, which covers every
  \<open>X.Y.Z\<close> (\<open>version_rules_validVersion\<close>). A line behind whitespace and
  full-line comments only is always the one recognised (\<open>finds_after_skippable\<close>).
\<close>

theorem scan_well_formed_line:
  assumes "b = pfx @ ''module '' @ idt @ '' //v'' @ ver @ rest"
    and "idt = name \<and> bare_ident name \<or> idt = q # name @ [q] \<and> quoted_ident q name"
    and "validVersion ver"
    and "rest = [] \<or> hd rest = lin"
    and "finds b at (length pfx)"
    and "wf_slice h s" and "sl_bytes h s = b"
  shows "parseMod b (sl_spare h s) at
           = Inr (name, ver, 4 + length ver, length pfx + 7 + length idt) \<and>
         take (4 + length ver) (drop (length pfx + 7 + length idt) b) = '' //v'' @ ver \<and>
         (\<exists>h' r. updateModVersion grow h s (int (length pfx + 7 + length idt))
                   (int (4 + length ver)) ver = Inr (h', r) \<and>
                 sl_bytes h' r = b)"
proof -
  have b: "b = pfx @ mod_kw @ idt @ [spc] @ pre @ ver @ rest"
    using assms(1) by (simp add: mod_kw_def spc_def pre_def)
  have ws: "[spc] \<noteq> []" "list_all isspace [spc]" by (simp_all add: isspace_def)
  note r = scan_annotated_line [OF b assms(2) ws assms(3,4,5,6,7)]
  from r(1) [of "sl_spare h s"] r(2) r(3) [of grow ver] b show ?thesis
    by (simp add: spc_def pre_def)
qed

theorem scan_well_formed_line_witness:
  "finds (testMod ''v0.1.0'') 0 53 \<and>
   bare_ident ''github.com/jcdotter/pub'' \<and>
   parseMod (testMod ''v0.1.0'') [] 0 = Inr (''github.com/jcdotter/pub'', ''0.1.0'', 9, 83) \<and>
   (\<exists>h' r. updateModVersion (\<lambda>c n. 2 * c) [testMod ''v0.1.0'']
              \<lparr>s_arr = 0, s_off = 0, s_len = 101, s_cap = 101\<rparr> 83 9 ''0.1.0'' = Inr (h', r) \<and>
            sl_bytes h' r = testMod ''v0.1.0'') \<and>
   quoted_ident qot ''my mod'' \<and>
   parseMod (''module '' @ [qot] @ ''my mod'' @ [qot] @ '' //v1.0.0'') [] 0
     = Inr (''my mod'', ''1.0.0'', 9, 15)"
proof -
  let ?s = "\<lparr>s_arr = 0, s_off = 0, s_len = 101, s_cap = 101\<rparr>"
  let ?b = "testMod ''v0.1.0''"
  have len: "length ?b = 101" by (simp add: testMod_def)
  have wf: "wf_slice [?b] ?s" by (simp add: wf_slice_def len)
  have sb: "sl_bytes [?b] ?s = ?b" by (simp add: sl_bytes_def len)
  have sp: "sl_spare [?b] ?s = []" by (simp add: sl_spare_def)
  have b: "?b = (''// pub is a simple module for publishing go modules.'' @ [lin]) @ ''module '' @
      ''github.com/jcdotter/pub'' @ '' //v'' @ ''0.1.0'' @ ([lin, lin] @ ''go 1.17'')"
    by (simp add: testMod_def)
  have l: "length (''// pub is a simple module for publishing go modules.'' @ [lin]) = 53"
    by simp
  have f: "finds ?b 0 (length (''// pub is a simple module for publishing go modules.'' @ [lin]))"
    by (simp only: l finds_testMod)
  have r: "[lin, lin] @ ''go 1.17'' = [] \<or> hd ([lin, lin] @ ''go 1.17'') = lin" by simp
  have id: "''github.com/jcdotter/pub'' = ''github.com/jcdotter/pub'' \<and> bare_ident ''github.com/jcdotter/pub''
      \<or> ''github.com/jcdotter/pub'' = qot # ''github.com/jcdotter/pub'' @ [qot] \<and>
        quoted_ident qot ''github.com/jcdotter/pub''"
    using bare_pub by simp
  note t1 = scan_well_formed_line [OF b id valid_010(1) r f wf sb, of "\<lambda>c n. 2 * c"]
  let ?s2 = "\<lparr>s_arr = 0, s_off = 0, s_len = 24, s_cap = 24\<rparr>"
  let ?b2 = "''module '' @ [qot] @ ''my mod'' @ [qot] @ '' //v1.0.0''"
  have q: "quoted_ident qot ''my mod''"
    by (simp add: quoted_ident_def qot_def esc_def)
  have id2: "[qot] @ ''my mod'' @ [qot] = ''my mod'' \<and> bare_ident ''my mod'' \<or>
      [qot] @ ''my mod'' @ [qot] = qot # ''my mod'' @ [qot] \<and> quoted_ident qot ''my mod''"
    using q by simp
  have b2: "?b2 = [] @ ''module '' @ ([qot] @ ''my mod'' @ [qot]) @ '' //v'' @ ''1.0.0'' @ []"
    by simp
  have f2: "finds ?b2 0 (length ([] :: byte list))"
    by (rule finds.here) (simp_all add: next_go.simps [of _ 0] qot_def com_def isspace_def mod_kw_def
        ret_def lin_def tab_def spc_def)
  have wf2: "wf_slice [?b2] ?s2" by (simp add: wf_slice_def)
  have sb2: "sl_bytes [?b2] ?s2 = ?b2" by (simp add: sl_bytes_def)
  have sp2: "sl_spare [?b2] ?s2 = []" by (simp add: sl_spare_def)
  note t2 = scan_well_formed_line [OF b2 id2 valid_010(2) _ f2 wf2 sb2, of "\<lambda>c n. 2 * c"]
  from t1 t2 sp sp2 finds_testMod bare_pub q show ?thesis by simp
qed

text \<open>
  Claim C10: the whitespace between identifier and annotation may hold newlines. When
  the first bytes behind the identifier that are not whitespace are a valid annotation
  on a later line, the scan reports that version, with the offset right behind the
  identifier and a length that reaches over the newlines to the end of the annotation's
  line; \<open>update\<close> over that span leaves the identifier, one space and the new
  annotation on one line.
\<close>

theorem scan_annotation_on_later_line:
  assumes "b = pfx @ ''module '' @ idt @ ws @ ''//v'' @ ver @ rest"
    and "idt = name \<and> bare_ident name \<or> idt = q # name @ [q] \<and> quoted_ident q name"
    and "list_all isspace ws" and "lin \<in> set ws"
    and "validVersion ver"
    and "rest = [] \<or> hd rest = lin"
    and "finds b at (length pfx)"
    and "wf_slice h s" and "sl_bytes h s = b"
  shows "parseMod b (sl_spare h s) at
           = Inr (name, ver, length ws + 3 + length ver, length pfx + 7 + length idt) \<and>
         take (length ws + 3 + length ver) (drop (length pfx + 7 + length idt) b)
           = ws @ ''//v'' @ ver \<and>
         (\<exists>h' r. updateModVersion grow h s (int (length pfx + 7 + length idt))
                   (int (length ws + 3 + length ver)) v' = Inr (h', r) \<and>
                 sl_bytes h' r = pfx @ ''module '' @ idt @ '' //v'' @ v' @ rest)"
proof -
  have b: "b = pfx @ mod_kw @ idt @ ws @ pre @ ver @ rest"
    using assms(1) by (simp add: mod_kw_def pre_def)
  from assms(4) have ws: "ws \<noteq> []" by auto
  note r = scan_annotated_line [OF b assms(2) ws assms(3,5,6,7,8,9)]
  from r(1) [of "sl_spare h s"] r(2) r(3) [of grow v'] show ?thesis
    by (simp add: spc_def pre_def mod_kw_def)
qed

theorem scan_annotation_on_later_line_witness:
  "finds (''module foo'' @ [lin] @ ''//v1.2.3'' @ [lin]) 0 0 \<and>
   bare_ident ''foo'' \<and>
   parseMod (''module foo'' @ [lin] @ ''//v1.2.3'' @ [lin]) [] 0 = Inr (''foo'', ''1.2.3'', 9, 10) \<and>
   (\<exists>h' r. updateModVersion (\<lambda>c n. 2 * c) [''module foo'' @ [lin] @ ''//v1.2.3'' @ [lin]]
              \<lparr>s_arr = 0, s_off = 0, s_len = 20, s_cap = 20\<rparr> 10 9 ''1.2.4'' = Inr (h', r) \<and>
            sl_bytes h' r = ''module foo //v1.2.4'' @ [lin])"
proof -
  let ?s = "\<lparr>s_arr = 0, s_off = 0, s_len = 20, s_cap = 20\<rparr>"
  let ?b = "''module foo'' @ [lin] @ ''//v1.2.3'' @ [lin]"
  have wf: "wf_slice [?b] ?s" by (simp add: wf_slice_def)
  have sb: "sl_bytes [?b] ?s = ?b" by (simp add: sl_bytes_def)
  have sp: "sl_spare [?b] ?s = []" by (simp add: sl_spare_def)
  have b: "?b = [] @ ''module '' @ ''foo'' @ [lin] @ ''//v'' @ ''1.2.3'' @ [lin]" by simp
  have f0: "finds ?b 0 0"
    by (rule finds.here) code_simp+
  then have f: "finds ?b 0 (length ([] :: byte list))" by simp
  have bi: "bare_ident ''foo''"
    by (simp add: bare_ident_def isspace_def com_def aps_def qot_def ret_def lin_def tab_def
        spc_def)
  then have id: "''foo'' = ''foo'' \<and> bare_ident ''foo'' \<or>
      ''foo'' = qot # ''foo'' @ [qot] \<and> quoted_ident qot ''foo''" by simp
  have ws: "list_all isspace [lin]" "lin \<in> set [lin]" by (simp_all add: isspace_def)
  have r: "[lin] = [] \<or> hd [lin] = lin" by simp
  note t = scan_annotation_on_later_line [OF b id ws valid_010(3) r f wf sb,
      of "\<lambda>c n. 2 * c" "''1.2.4''"]
  from t sp f0 bi show ?thesis by simp
qed

section \<open>Scanning again after an update\<close>

text \<open>
  What the scanner returns depends only on the bytes it has read: the keyword search
  on the bytes up to the end of the keyword, \<open>parseModName\<close> on the bytes up to
  the end of the identifier and on the byte behind it being whitespace.
\<close>

lemma take_eq_nth: "take n b' = take n b \<Longrightarrow> j < n \<Longrightarrow> b' ! j = b ! j"
  by (metis nth_take)

lemma take_eq_len: "take n b' = take n b \<Longrightarrow> n \<le> length b \<Longrightarrow> n \<le> length b'"
  by (metis length_take min.absorb2 min.cobounded1)

lemma take_eq_mono: "take n b' = take n b \<Longrightarrow> m \<le> n \<Longrightarrow> take m b' = take m b"
  by (metis min.absorb1 take_take)

lemma take_drop_agree:
  assumes "take n b' = take n b" and "hi \<le> n"
  shows "take (hi - lo) (drop lo b') = take (hi - lo) (drop lo b)"
proof -
  from take_eq_mono [OF assms] have "drop lo (take hi b') = drop lo (take hi b)" by simp
  then show ?thesis by (simp add: drop_take)
qed

lemma search_le: "i \<le> length b \<Longrightarrow> search c b i \<le> length b"
proof (induction c b i rule: search.induct)
  case (1 c b i)
  show ?case
  proof (cases "i < length b \<and> b ! i \<noteq> c")
    case True
    then have "search c b i = search c b (i + 1)" by (subst search.simps) simp
    with "1.IH" [OF True] True show ?thesis by simp
  next
    case False
    then have "search c b i = i" by (subst search.simps) auto
    with "1.prems" show ?thesis by simp
  qed
qed

lemma search_stop: "search c b i < length b \<Longrightarrow> b ! search c b i = c"
proof (induction c b i rule: search.induct)
  case (1 c b i)
  show ?case
  proof (cases "i < length b \<and> b ! i \<noteq> c")
    case True
    then have "search c b i = search c b (i + 1)" by (subst search.simps) simp
    with "1.IH" [OF True] "1.prems" show ?thesis by simp
  next
    case False
    then have "search c b i = i" by (subst search.simps) auto
    with "1.prems" False show ?thesis by auto
  qed
qed

lemma search_local:
  "search c b i = k \<Longrightarrow> k < length b \<Longrightarrow> take (k + 1) b' = take (k + 1) b \<Longrightarrow>
   search c b' i = k"
proof (induction c b i rule: search.induct)
  case (1 c b i)
  from "1.prems"(2,3) have lb': "k < length b'"
    using take_eq_len [of "k + 1" b' b] by simp
  from search_ge [of i c b] "1.prems"(1) have ik: "i \<le> k" by simp
  with "1.prems"(3) have same: "b' ! i = b ! i" by (intro take_eq_nth [of "k + 1" b' b i]) simp_all
  show ?case
  proof (cases "i < length b \<and> b ! i \<noteq> c")
    case True
    then have "search c b i = search c b (i + 1)" by (subst search.simps) simp
    with "1.prems" have "search c b (i + 1) = k" by simp
    from "1.IH" [OF True this "1.prems"(2,3)] have "search c b' (i + 1) = k" .
    moreover from search_ge [of "i + 1" c b] \<open>search c b (i + 1) = k\<close> have "i < k" by simp
    with lb' True same have "search c b' i = search c b' (i + 1)"
      by (subst search.simps) simp
    ultimately show ?thesis by simp
  next
    case False
    then have "search c b i = i" by (subst search.simps) auto
    with "1.prems" have ki: "k = i" by simp
    with False "1.prems"(2) have "b ! i = c" by simp
    with same have "b' ! i = c" by simp
    then have "search c b' i = i" by (subst search.simps) simp
    with ki show ?thesis by simp
  qed
qed

lemma iscomm_local:
  assumes "take n b' = take n b" and "n \<le> length b" and "j + 1 < n"
  shows "iscomm b' j = iscomm b j"
proof -
  from take_eq_len [OF assms(1,2)] have l: "n \<le> length b'" .
  from assms(3) have j: "j < n" by simp
  have a: "b' ! j = b ! j" using assms(1) j by (rule take_eq_nth)
  have c: "b' ! (j + 1) = b ! (j + 1)" using assms(1,3) by (rule take_eq_nth)
  from l a c assms(2,3) show ?thesis by (simp add: iscomm_def index_def)
qed

lemma next_go_local:
  "next_go b i sk = Inr k \<Longrightarrow> k < length b \<Longrightarrow> take (k + 1) b' = take (k + 1) b \<Longrightarrow>
   next_go b' i sk = Inr k"
proof (induction b i sk rule: next_go.induct)
  case (1 b at skipcom)
  note tk = "1.prems"(3)
  from "1.prems"(2) have kl: "k + 1 \<le> length b" by simp
  from take_eq_len [OF tk kl] have lb': "k < length b'" by simp
  from next_go_ge [OF "1.prems"(1)] have ak: "at \<le> k" .
  with "1.prems"(2) have lt: "at < length b" by simp
  from ak lb' have lt': "at < length b'" by simp
  from ak have "at < k + 1" by simp
  with tk have same: "b' ! at = b ! at" by (rule take_eq_nth)
  show ?case
  proof (cases "skipcom \<and> b ! at = com")
    case True
    with lt "1.prems"(1) obtain a' where
      s: "skipComment b at = Inr a'" and n: "next_go b (a' + 1) skipcom = Inr k"
      by (auto simp: next_go.simps [of b at] split: sum.splits)
    from next_go_ge [OF n] have a'k: "a' + 1 \<le> k" .
    from skipComment_ge [OF s] have aa: "at \<le> a'" .
    from aa a'k have "at + 1 < k + 1" by simp
    from iscomm_local [OF tk kl this] have ic: "iscomm b' at = iscomm b at" .
    have s': "skipComment b' at = Inr a'"
    proof (cases "iscomm b at")
      case (Inl e)
      with s show ?thesis by (simp add: skipComment_def)
    next
      case (Inr c)
      show ?thesis
      proof (cases c)
        case False
        with Inr s ic show ?thesis by (simp add: skipComment_def)
      next
        case True
        with Inr s have se: "search lin b (at + 2) = a'" by (simp add: skipComment_def)
        from a'k "1.prems"(2) have al: "a' < length b" by simp
        from a'k have "a' + 1 \<le> k + 1" by simp
        with tk have "take (a' + 1) b' = take (a' + 1) b" by (rule take_eq_mono)
        with se al have "search lin b' (at + 2) = a'" by (rule search_local)
        with Inr True ic show ?thesis by (simp add: skipComment_def)
      qed
    qed
    from "1.IH"(1) [OF lt True s n "1.prems"(2) tk] have "next_go b' (a' + 1) skipcom = Inr k" .
    with True same lt' s' show ?thesis by (simp add: next_go.simps [of b' at])
  next
    case nc: False
    show ?thesis
    proof (cases "isspace (b ! at)")
      case True
      with lt nc "1.prems"(1) have n: "next_go b (at + 1) skipcom = Inr k"
        by (auto simp: next_go.simps [of b at])
      from "1.IH"(2) [OF lt nc True n "1.prems"(2) tk] have "next_go b' (at + 1) skipcom = Inr k" .
      with True nc same lt' show ?thesis by (auto simp: next_go.simps [of b' at])
    next
      case False
      with lt nc "1.prems"(1) have "k = at" by (auto simp: next_go.simps [of b at])
      with False nc same lt' show ?thesis by (auto simp: next_go.simps [of b' at])
    qed
  qed
qed

lemma finds_ge: "finds b i p \<Longrightarrow> i \<le> p \<and> p + 7 \<le> length b"
proof (induction rule: finds.induct)
  case (here i b p)
  with next_go_ge show ?case by blast
next
  case (step i b j p)
  from next_go_ge [OF step.hyps(2)] step.IH show ?case by simp
qed

lemma finds_local:
  "finds b i p \<Longrightarrow> take (p + 7) b' = take (p + 7) b \<Longrightarrow> finds b' i p"
proof (induction rule: finds.induct)
  case (here i b p)
  from take_eq_len [OF here.prems here.hyps(3)] have l': "p + 7 \<le> length b'" .
  from next_go_ge [OF here.hyps(2)] have ip: "i \<le> p" .
  have t1: "take (p + 1) b' = take (p + 1) b"
    using here.prems by (rule take_eq_mono) simp
  from here.hyps(3) have "p < length b" by simp
  then have n: "next_go b' i True = Inr p"
    using t1 by (rule next_go_local [OF here.hyps(2)])
  from take_drop_agree [OF here.prems, of "p + 7" p] here.hyps(4)
  have k: "take 7 (drop p b') = mod_kw" by simp
  from ip l' have "i < length b'" by simp
  then show ?case using n l' k by (rule finds.here)
next
  case (step i b j p)
  from finds_ge [OF step.hyps(5)] have jp: "j + 1 \<le> p" and pl: "p + 7 \<le> length b" by simp_all
  from take_eq_len [OF step.prems pl] have l': "p + 7 \<le> length b'" .
  from next_go_ge [OF step.hyps(2)] have ij: "i \<le> j" .
  from jp have "j + 1 \<le> p + 7" by simp
  with step.prems have t1: "take (j + 1) b' = take (j + 1) b" by (rule take_eq_mono)
  from step.hyps(3) have "j < length b" by simp
  then have n: "next_go b' i True = Inr j"
    using t1 by (rule next_go_local [OF step.hyps(2)])
  from jp have "j + 7 \<le> p + 7" by simp
  from take_drop_agree [OF step.prems this, of j] step.hyps(4)
  have k: "take 7 (drop j b') \<noteq> mod_kw" by simp
  from ij jp l' have "i < length b'" "j + 7 \<le> length b'" by simp_all
  then show ?case using n k step.IH [OF step.prems] by (intro finds.step [of i b' j])
qed

lemma parseMod_finds:
  "parseMod b sp i = Inr (name, ver, vlen, off) \<Longrightarrow> name \<noteq> [] \<Longrightarrow>
   \<exists>p. finds b i p \<and> parseDecl b sp p = Inr (name, ver, vlen, off)"
proof (induction b sp i rule: parseMod.induct)
  case (1 b sp i)
  from "1.prems" have lt: "i < length b"
    by (cases "i < length b") (simp_all add: parseMod.simps [of b sp i])
  with "1.prems" obtain j where n: "next_go b i True = Inr j"
    by (cases "next_go b i True") (simp_all add: parseMod.simps [of b sp i])
  with lt "1.prems" have le: "j + 7 \<le> length b"
    by (cases "length b < j + 7") (simp_all add: parseMod.simps [of b sp i])
  then have sl: "slice b sp j (j + 7) = Inr (take 7 (drop j b))"
    by (simp add: slice_in_range)
  have nl: "\<not> length b < j + 7" using le by simp
  show ?case
  proof (cases "take 7 (drop j b) = mod_kw")
    case True
    with lt n nl sl "1.prems"(1) have "parseDecl b sp j = Inr (name, ver, vlen, off)"
      by (simp add: parseMod.simps [of b sp i] parseDecl_def)
    moreover from lt n le True have "finds b i j" by (rule finds.here)
    ultimately show ?thesis by blast
  next
    case False
    with lt n nl sl "1.prems"(1) have "parseMod b sp (j + 1) = Inr (name, ver, vlen, off)"
      by (simp add: parseMod.simps [of b sp i])
    from "1.IH" [OF lt n nl sl False this "1.prems"(2)] obtain p where
      f: "finds b (j + 1) p" and d: "parseDecl b sp p = Inr (name, ver, vlen, off)" by blast
    from lt n le False f have "finds b i p" by (rule finds.step)
    with d show ?thesis by blast
  qed
qed

lemma parseModName_loop_ge: "parseModName_loop b i = Inr k \<Longrightarrow> i \<le> k"
proof (induction b i rule: parseModName_loop.induct)
  case (1 b i)
  show ?case
  proof (cases "i < length b \<and> \<not> isspace (b ! i) \<and> iscomm b i = Inr False")
    case True
    with "1.prems" have "parseModName_loop b (i + 1) = Inr k"
      by (simp add: parseModName_loop.simps [of b i])
    with "1.IH" True show ?thesis by fastforce
  next
    case False
    with "1.prems" have "k = i"
      by (auto simp: parseModName_loop.simps [of b i] split: if_splits sum.splits bool.splits)
    then show ?thesis by simp
  qed
qed

lemma parseModName_loop_local:
  "parseModName_loop b i = Inr k \<Longrightarrow> k \<le> length b \<Longrightarrow> take k b' = take k b \<Longrightarrow>
   k < length b' \<Longrightarrow> isspace (b' ! k) \<Longrightarrow> parseModName_loop b' i = Inr k"
proof (induction b i rule: parseModName_loop.induct)
  case (1 b i)
  note tk = "1.prems"(3) and kl' = "1.prems"(4) and sp = "1.prems"(5)
  from parseModName_loop_ge [OF "1.prems"(1)] have ik: "i \<le> k" .
  show ?case
  proof (cases "i < length b \<and> \<not> isspace (b ! i) \<and> iscomm b i = Inr False")
    case True
    with "1.prems"(1) have nx: "parseModName_loop b (i + 1) = Inr k"
      by (simp add: parseModName_loop.simps [of b i])
    from parseModName_loop_ge [OF nx] have lt: "i < k" by simp
    with tk have same: "b' ! i = b ! i" by (rule take_eq_nth [of k])
    from True have ic: "iscomm b i = Inr False" by simp
    have ic': "iscomm b' i = Inr False"
    proof (cases "b ! i = com")
      case False
      with same lt kl' show ?thesis by (simp add: iscomm_def index_def)
    next
      case c: True
      with ic have i1: "i + 1 < length b" and nc: "b ! (i + 1) \<noteq> com"
        by (auto simp: iscomm_def index_def split: if_splits)
      have "b' ! (i + 1) \<noteq> com"
      proof (cases "i + 1 < k")
        case True
        with tk have "b' ! (i + 1) = b ! (i + 1)" by (rule take_eq_nth [of k])
        with nc show ?thesis by simp
      next
        case False
        with lt have "i + 1 = k" by simp
        with sp isspace_not_com show ?thesis by auto
      qed
      with same c lt kl' show ?thesis by (simp add: iscomm_def index_def)
    qed
    from True have a: "i < length b" and b: "\<not> isspace (b ! i)" by simp_all
    from "1.IH" [OF a b ic _ nx "1.prems"(2) tk kl' sp]
    have "parseModName_loop b' (i + 1) = Inr k" by simp
    with lt kl' same True ic' show ?thesis
      by (simp add: parseModName_loop.simps [of b' i])
  next
    case False
    with "1.prems"(1) have "k = i"
      by (auto simp: parseModName_loop.simps [of b i] split: if_splits sum.splits bool.splits)
    with kl' sp show ?thesis by (simp add: parseModName_loop.simps [of b' i])
  qed
qed

lemma parseModName_escaped:
  assumes "next_go b a0 False = Inr at" and "at < length b"
    and "b ! at = aps \<or> b ! at = qot"
    and "search (b ! at) b (at + 1) = i" and "i \<le> length b" and "b ! (i - 1) = esc"
    and "parseModName_loop b i = Inr k" and "k \<le> length b"
  shows "parseModName b sp a0 = Inr (take (k - at) (drop at b), k)"
proof -
  from search_ge [of "at + 1" "b ! at" b] assms(4) have "at + 1 \<le> i" by simp
  moreover from parseModName_loop_ge [OF assms(7)] have "i \<le> k" .
  ultimately show ?thesis using assms
    by (auto simp: parseModName_def index_def slice_in_range Let_def)
qed

lemma parseModName_Inr:
  assumes "parseModName b sp a0 = Inr (name, off)"
  obtains at where "next_go b a0 False = Inr at" and "at < length b"
proof -
  from assms obtain at where n: "next_go b a0 False = Inr at"
    by (cases "next_go b a0 False") (simp_all add: parseModName_def)
  with assms have "at < length b"
    by (cases "at < length b") (simp_all add: parseModName_def index_def)
  with n that show ?thesis by blast
qed

lemma parseModName_local:
  assumes pn: "parseModName b sp a0 = Inr (name, off)" and ne: "name \<noteq> []"
    and ol: "off < length b" and tk: "take off b' = take off b"
    and ol': "off < length b'" and sp: "isspace (b' ! off)"
  shows "parseModName b' sp' a0 = Inr (name, off)"
proof -
  from pn obtain at where n: "next_go b a0 False = Inr at" and al: "at < length b"
    by (rule parseModName_Inr)
  let ?c = "b ! at"
  define i where "i = search ?c b (at + 1)"
  have se: "search ?c b (at + 1) = i" by (simp add: i_def)
  from search_ge [of "at + 1" ?c b] have i1: "at + 1 \<le> i" by (simp add: i_def)
  from al have "at + 1 \<le> length b" by simp
  from search_le [OF this] have il: "i \<le> length b" by (simp add: i_def)
  from i1 il have ip: "search ?c b (at + 1) - 1 < length b" by (simp add: i_def)
  show ?thesis
  proof (cases "?c = aps \<or> ?c = qot")
    case q: True
    show ?thesis
    proof (cases "b ! (i - 1) = esc")
      case False
      from parseModName_closed [OF n al q se il False, of sp] pn
      have nm: "name = take (i - (at + 1)) (drop (at + 1) b)" and off: "off = i + 1" by simp_all
      from off i1 have ao: "at + 1 \<le> off" by simp
      from tk ao have t1: "take (at + 1) b' = take (at + 1) b" by (rule take_eq_mono)
      from al t1 have n': "next_go b' a0 False = Inr at" by (rule next_go_local [OF n])
      from ao have "at < off" by simp
      with tk have same: "b' ! at = b ! at" by (rule take_eq_nth)
      from ao ol' have al': "at < length b'" by simp
      from off ol have ib: "i < length b" by simp
      from tk off have t2: "take (i + 1) b' = take (i + 1) b" by simp
      from ib t2 have se': "search (b' ! at) b' (at + 1) = i"
        unfolding same by (rule search_local [OF se])
      from off ol' have il': "i \<le> length b'" by simp
      from off i1 have "i - 1 < off" by simp
      with tk have "b' ! (i - 1) = b ! (i - 1)" by (rule take_eq_nth)
      with False have pe: "b' ! (i - 1) \<noteq> esc" by simp
      from q same have q': "b' ! at = aps \<or> b' ! at = qot" by simp
      from off have "i \<le> off" by simp
      from take_drop_agree [OF tk this, of "at + 1"] nm
      have "take (i - (at + 1)) (drop (at + 1) b') = name" by simp
      with parseModName_closed [OF n' al' q' se' il' pe, of sp'] off show ?thesis by simp
    next
      case e: True
      from pn n al q e ip obtain k where lp: "parseModName_loop b i = Inr k"
        by (cases "parseModName_loop b i")
          (simp_all add: parseModName_def index_def Let_def i_def)
      from pn n al q e ip lp have off: "off = k"
        by (auto simp: parseModName_def index_def Let_def i_def split: sum.splits)
      with ol have kl: "k \<le> length b" by simp
      from parseModName_escaped [OF n al q se il e lp kl, of sp] pn
      have nm: "name = take (k - at) (drop at b)" by simp
      from parseModName_loop_ge [OF lp] off have io: "i \<le> off" by simp
      with ol have ib: "i < length b" by simp
      have "i \<noteq> off"
      proof
        assume eq: "i = off"
        from ib have "b ! i = ?c" unfolding i_def by (rule search_stop)
        with q quote_facts have ns: "\<not> isspace (b ! i)" and nc: "b ! i \<noteq> com" by auto
        from nc ib have "iscomm b i = Inr False" by (simp add: iscomm_def index_def)
        with ns ib lp have "parseModName_loop b (i + 1) = Inr k"
          by (simp add: parseModName_loop.simps [of b i])
        from parseModName_loop_ge [OF this] off eq show False by simp
      qed
      with io have i_lt: "i + 1 \<le> off" by simp
      with i1 have ao: "at + 1 \<le> off" by simp
      from tk ao have t1: "take (at + 1) b' = take (at + 1) b" by (rule take_eq_mono)
      from al t1 have n': "next_go b' a0 False = Inr at" by (rule next_go_local [OF n])
      from ao have "at < off" by simp
      with tk have same: "b' ! at = b ! at" by (rule take_eq_nth)
      from ao ol' have al': "at < length b'" by simp
      from tk i_lt have t2: "take (i + 1) b' = take (i + 1) b" by (rule take_eq_mono)
      from ib t2 have se': "search (b' ! at) b' (at + 1) = i"
        unfolding same by (rule search_local [OF se])
      from i_lt ol' have il': "i \<le> length b'" by simp
      from i_lt i1 have "i - 1 < off" by simp
      with tk have "b' ! (i - 1) = b ! (i - 1)" by (rule take_eq_nth)
      with e have pe: "b' ! (i - 1) = esc" by simp
      from q same have q': "b' ! at = aps \<or> b' ! at = qot" by simp
      from ol off have kb: "k \<le> length b" by simp
      from tk ol' sp off have lp': "parseModName_loop b' i = Inr k"
        by (intro parseModName_loop_local [OF lp kb]) simp_all
      from ol' off have kl': "k \<le> length b'" by simp
      from take_drop_agree [OF tk order_refl, of at] nm off
      have "take (k - at) (drop at b') = name" by simp
      with parseModName_escaped [OF n' al' q' se' il' pe lp' kl', of sp'] off show ?thesis
        by simp
    qed
  next
    case nq: False
    from pn n al nq obtain k where lp: "parseModName_loop b at = Inr k"
      by (cases "parseModName_loop b at") (simp_all add: parseModName_def index_def Let_def)
    from pn n al nq lp have off: "off = k"
      by (auto simp: parseModName_def index_def Let_def split: sum.splits)
    with ol have kl: "k \<le> length b" by simp
    from nq have nq2: "b ! at \<noteq> aps" "b ! at \<noteq> qot" by simp_all
    from parseModName_loop_ge [OF lp] have ak: "at \<le> k" .
    from parseModName_unquoted [OF n al nq2 lp ak kl, of sp] pn
    have nm: "name = take (k - at) (drop at b)" by simp
    with ne have "at < k" by (cases "at < k") simp_all
    with off have ao: "at + 1 \<le> off" by simp
    from tk ao have t1: "take (at + 1) b' = take (at + 1) b" by (rule take_eq_mono)
    from al t1 have n': "next_go b' a0 False = Inr at" by (rule next_go_local [OF n])
    from ao have "at < off" by simp
    with tk have same: "b' ! at = b ! at" by (rule take_eq_nth)
    from ao ol' have al': "at < length b'" by simp
    from nq2 same have nq': "b' ! at \<noteq> aps" "b' ! at \<noteq> qot" by simp_all
    from tk ol' sp off have lp': "parseModName_loop b' at = Inr k"
      by (intro parseModName_loop_local [OF lp kl]) simp_all
    from ol' off have kl': "k \<le> length b'" by simp
    from take_drop_agree [OF tk order_refl, of at] nm off
    have "take (k - at) (drop at b') = name" by simp
    with parseModName_unquoted [OF n' al' nq' lp' ak kl', of sp'] off show ?thesis by simp
  qed
qed

lemma search_beyond: "length b \<le> i \<Longrightarrow> search c b i = i"
  by (subst search.simps) simp

lemma parseModName_ge: "parseModName b sp a0 = Inr (name, off) \<Longrightarrow> a0 \<le> off"
proof -
  assume pn: "parseModName b sp a0 = Inr (name, off)"
  then obtain at where n: "next_go b a0 False = Inr at" and al: "at < length b"
    by (rule parseModName_Inr)
  from next_go_ge [OF n] have a: "a0 \<le> at" .
  have s: "at + 1 \<le> search (b ! at) b (at + 1)" by (rule search_ge)
  have "at \<le> off"
    using pn n al s
    by (auto simp: parseModName_def index_def Let_def slice_def
        split: sum.splits if_splits dest!: parseModName_loop_ge)
  with a show ?thesis by simp
qed

lemma parseModVersion_result:
  assumes pv: "parseModVersion b sp at = Inr (ver, vlen, i)"
  shows "i = at" and "at < length b"
    and "ver = [] \<and> vlen = 0 \<or>
         validVersion ver \<and> at + vlen \<le> length b \<and>
         (at + vlen = length b \<or> b ! (at + vlen) = lin)"
proof -
  from pv obtain pos where n: "next_go b at False = Inr pos"
    by (cases "next_go b at False") (simp_all add: parseModVersion_def)
  with pv have pl: "pos < length b"
    by (cases "pos < length b") (simp_all add: parseModVersion_def index_def)
  from next_go_ge [OF n] have ap: "at \<le> pos" .
  with pl show "at < length b" by simp
  from pv n pl show "i = at"
    by (auto simp: parseModVersion_def index_def Let_def split: sum.splits if_splits)
  let ?p = "pos + length pre"
  let ?i = "search lin b ?p"
  show "ver = [] \<and> vlen = 0 \<or>
         validVersion ver \<and> at + vlen \<le> length b \<and>
         (at + vlen = length b \<or> b ! (at + vlen) = lin)"
  proof (cases "ver = [] \<and> vlen = 0")
    case True
    then show ?thesis by simp
  next
    case False
    with pv n pl have sl: "slice b sp ?p ?i = Inr ver" and vv: "validVersion ver"
      and vl: "vlen = ?i - at"
      by (auto simp: parseModVersion_def index_def Let_def split: sum.splits if_splits)
    have pb: "?p < length b"
    proof (rule ccontr)
      assume "\<not> ?p < length b"
      then have "?i = ?p" by (intro search_beyond) simp
      with sl have "ver = []" by (simp add: slice_def split: if_splits)
      with vv show False by (simp add: validVersion_def)
    qed
    then have "?p \<le> length b" by simp
    from search_le [OF this] have il: "?i \<le> length b" .
    from search_ge [of ?p lin b] ap have "at \<le> ?i" by simp
    with vl have e: "at + vlen = ?i" by simp
    have "?i = length b \<or> b ! ?i = lin"
      using il search_stop [of lin b ?p] by (cases "?i < length b") simp_all
    with e il vv show ?thesis by simp
  qed
qed

lemma rescan_after_update:
  assumes pm: "parseMod b sp at = Inr (name, ver, vlen, off)" and ne: "name \<noteq> []"
    and eol: "ver \<noteq> [] \<or> b ! off = lin" and v: "validVersion v"
  shows "off + vlen \<le> length b"
    and "parseMod (update_spec b off vlen v) sp' at = Inr (name, v, 4 + length v, off)"
proof -
  from parseMod_finds [OF pm ne] obtain p where
    f: "finds b at p" and d: "parseDecl b sp p = Inr (name, ver, vlen, off)" by blast
  from d obtain i1 where pn0: "parseModName b sp (p + 7) = Inr (name, i1)"
    and pv0: "parseModVersion b sp i1 = Inr (ver, vlen, off)"
    by (auto simp: parseDecl_def split: sum.splits prod.splits)
  from parseModVersion_result(1) [OF pv0] have "off = i1" .
  with pn0 pv0 have pn: "parseModName b sp (p + 7) = Inr (name, off)"
    and pv: "parseModVersion b sp off = Inr (ver, vlen, off)" by simp_all
  note r = parseModVersion_result [OF pv]
  from r(2) have ol: "off < length b" .
  from parseModName_ge [OF pn] have po: "p + 7 \<le> off" .
  let ?rest = "drop (off + vlen) b"
  from r(3) eol ol show le: "off + vlen \<le> length b" by auto
  have rest: "?rest = [] \<or> hd ?rest = lin"
  proof (cases "off + vlen < length b")
    case False
    then show ?thesis by simp
  next
    case True
    with r(3) eol have "b ! (off + vlen) = lin" by auto
    with True show ?thesis by (simp add: hd_drop_conv_nth)
  qed
  let ?xs = "take off b"
  let ?b' = "update_spec b off vlen v"
  from ol have lx: "length ?xs = off" by simp
  have b': "?b' = ?xs @ [spc] @ pre @ v @ ?rest" by (simp add: update_spec_def)
  have tk: "take off ?b' = take off b" unfolding b' using lx by simp
  have ol': "off < length ?b'" unfolding b' using lx by simp
  have "?b' ! off = spc" unfolding b' using lx by (simp add: nth_append)
  then have sp: "isspace (?b' ! off)" by (simp add: isspace_def)
  from tk po have "take (p + 7) ?b' = take (p + 7) b" by (rule take_eq_mono)
  with f have f': "finds ?b' at p" by (rule finds_local)
  from pn ne ol tk ol' sp have pn': "parseModName ?b' sp' (p + 7) = Inr (name, off)"
    by (rule parseModName_local)
  have ws: "list_all isspace [spc]" by (simp add: isspace_def)
  from parseModVersion_annotated [OF ws v rest, of ?xs sp'] lx
  have pv': "parseModVersion ?b' sp' off = Inr (v, 4 + length v, off)"
    unfolding b' by simp
  from pn' pv' have "parseDecl ?b' sp' p = Inr (name, v, 4 + length v, off)"
    by (simp add: parseDecl_def)
  with finds_parseMod [OF f', of sp']
  show "parseMod ?b' sp' at = Inr (name, v, 4 + length v, off)" by simp
qed

lemma drop_two: "drop (length xs + length ys) (xs @ ys @ zs) = zs"
  by simp

lemma take_len: "take (length ys) (ys @ zs) = ys"
  by simp

lemma update_spec_again:
  assumes "off \<le> length b"
  shows "update_spec (update_spec b off vlen v) off (4 + length v) v = update_spec b off vlen v"
    and "take (4 + length v) (drop off (update_spec b off vlen v)) = [spc] @ pre @ v"
proof -
  let ?xs = "take off b" and ?ys = "[spc] @ pre @ v" and ?rest = "drop (off + vlen) b"
  from assms have lx: "length ?xs = off" by simp
  have ly: "length ?ys = 4 + length v" by (simp add: pre_def)
  have u: "update_spec b off vlen v = ?xs @ ?ys @ ?rest" by (simp add: update_spec_def)
  have t: "take off (?xs @ ?ys @ ?rest) = ?xs" using lx by simp
  have d: "drop (off + (4 + length v)) (?xs @ ?ys @ ?rest) = ?rest"
    using drop_two [of ?xs ?ys ?rest]
    unfolding lx ly .
  have d1: "drop off (?xs @ ?ys @ ?rest) = ?ys @ ?rest" using lx by simp
  show "update_spec (update_spec b off vlen v) off (4 + length v) v = update_spec b off vlen v"
    unfolding u unfolding update_spec_def [of "?xs @ ?ys @ ?rest"] t d by simp
  show "take (4 + length v) (drop off (update_spec b off vlen v)) = [spc] @ pre @ v"
    unfolding u d1 using take_len [of ?ys ?rest] unfolding ly .
qed

lemma sl_bytes_length: "wf_slice h s \<Longrightarrow> length (sl_bytes h s) = s_len s"
  by (auto simp: wf_slice_def sl_bytes_def)

text \<open>
  Claim C4: for every buffer whose scan succeeds with offset \<open>off\<close> and length
  \<open>len\<close> and every valid version \<open>v\<close>, scanning the result of
  \<open>update(buffer, off, len, v)\<close> returns version \<open>v\<close>, and a second update gives
  the same bytes. As stated this fails when the scan found no annotation and the
  identifier is not the last thing on its line: the annotation is inserted right
  behind the identifier, the rest of the line stays behind it, and the new scan reads
  both as a version, which is invalid. On \<open>module foo // c\<close> the scan after the
  update to \<open>1.0.0\<close> returns no version.
\<close>

theorem update_then_scan_loses_version:
  "parseMod (''module foo // c'' @ [lin]) [] 0 = Inr (''foo'', [], 0, 10) \<and>
   validVersion ''1.0.0'' \<and>
   updateModVersion grow_double [''module foo // c'' @ [lin]]
       \<lparr>s_arr = 0, s_off = 0, s_len = 16, s_cap = 16\<rparr> 10 0 ''1.0.0''
     = Inr ([''module foo // c'' @ [lin], '' //v1.0.0 // c'' @ [lin, CHR 0x00],
             ''module foo //v1.0.0 // c'' @ [lin] @ replicate 7 (CHR 0x00)],
            \<lparr>s_arr = 2, s_off = 0, s_len = 25, s_cap = 32\<rparr>) \<and>
   sl_bytes [''module foo // c'' @ [lin], '' //v1.0.0 // c'' @ [lin, CHR 0x00],
             ''module foo //v1.0.0 // c'' @ [lin] @ replicate 7 (CHR 0x00)]
            \<lparr>s_arr = 2, s_off = 0, s_len = 25, s_cap = 32\<rparr>
     = ''module foo //v1.0.0 // c'' @ [lin] \<and>
   parseMod (''module foo //v1.0.0 // c'' @ [lin]) (replicate 7 (CHR 0x00)) 0
     = Inr (''foo'', [], 0, 10)"
proof -
  have a: "parseMod (''module foo // c'' @ [lin]) [] 0 = Inr (''foo'', [], 0, 10)"
    by code_simp
  have b: "validVersion ''1.0.0''" by (simp add: validVersion_def isnum_def)
  have c: "updateModVersion grow_double [''module foo // c'' @ [lin]]
       \<lparr>s_arr = 0, s_off = 0, s_len = 16, s_cap = 16\<rparr> 10 0 ''1.0.0''
     = Inr ([''module foo // c'' @ [lin], '' //v1.0.0 // c'' @ [lin, CHR 0x00],
             ''module foo //v1.0.0 // c'' @ [lin] @ replicate 7 (CHR 0x00)],
            \<lparr>s_arr = 2, s_off = 0, s_len = 25, s_cap = 32\<rparr>)"
    by (simp add: updateModVersion_def make_go_def slice_to_def slice_from_def append_go_def
        Let_def sl_bytes_def write_at_def pre_def spc_def lin_def grow_double_def
        numeral_eq_Suc)
  have d: "sl_bytes [''module foo // c'' @ [lin], '' //v1.0.0 // c'' @ [lin, CHR 0x00],
             ''module foo //v1.0.0 // c'' @ [lin] @ replicate 7 (CHR 0x00)]
            \<lparr>s_arr = 2, s_off = 0, s_len = 25, s_cap = 32\<rparr>
     = ''module foo //v1.0.0 // c'' @ [lin]"
    by (simp add: sl_bytes_def)
  have e: "parseMod (''module foo //v1.0.0 // c'' @ [lin]) (replicate 7 (CHR 0x00)) 0
     = Inr (''foo'', [], 0, 10)"
    by code_simp
  from a b c d e show ?thesis by blast
qed

text \<open>
  Claim C4, amended: let the scan of a buffer return a non-empty name, a version, an
  offset and a length, where either the version is non-empty (an annotation was found)
  or the byte at the offset is a newline (no annotation, and the identifier ends its
  line). Then for every version \<open>v\<close> that \<open>validVersion\<close> accepts, \<open>update\<close>
  returns; the scan of its result returns the same name, version \<open>v\<close>, the same
  offset and length \<open>4 + len(v)\<close>, which span the new annotation; and \<open>update\<close>
  with \<open>v\<close> over that span returns the same bytes again.
\<close>

theorem update_then_scan:
  assumes "parseMod (sl_bytes h s) (sl_spare h s) at = Inr (name, ver, vlen, off)"
    and "name \<noteq> []"
    and "ver \<noteq> [] \<or> sl_bytes h s ! off = lin"
    and "validVersion v"
    and "wf_slice h s"
  shows "\<exists>h' r. updateModVersion grow h s (int off) (int vlen) v = Inr (h', r) \<and>
           parseMod (sl_bytes h' r) (sl_spare h' r) at = Inr (name, v, 4 + length v, off) \<and>
           take (4 + length v) (drop off (sl_bytes h' r)) = '' //v'' @ v \<and>
           (\<exists>h'' r'. updateModVersion grow h' r (int off) (int (4 + length v)) v
                        = Inr (h'', r') \<and>
                      sl_bytes h'' r' = sl_bytes h' r)"
proof -
  let ?b = "sl_bytes h s"
  let ?b' = "update_spec ?b off vlen v"
  note rs = rescan_after_update [OF assms(1,2,3,4)]
  from rs(1) sl_bytes_length [OF assms(5)] have le: "off + vlen \<le> s_len s" by simp
  from updateModVersion_bytes_nat [OF assms(5) le, of grow v] obtain h' r where
    u: "updateModVersion grow h s (int off) (int vlen) v = Inr (h', r)"
    and wf': "wf_slice h' r" and c: "sl_bytes h' r = ?b'" by blast
  from rs(1) have ol: "off \<le> length ?b" by simp
  note ua = update_spec_again [OF ol, where vlen = vlen and v = v]
  from ol have "off + (4 + length v) \<le> length ?b'" by (simp add: update_spec_def pre_def)
  with c sl_bytes_length [OF wf'] have le': "off + (4 + length v) \<le> s_len r" by simp
  from updateModVersion_bytes_nat [OF wf' le', of grow v] obtain h'' r' where
    u': "updateModVersion grow h' r (int off) (int (4 + length v)) v = Inr (h'', r')"
    and c': "sl_bytes h'' r' = update_spec (sl_bytes h' r) off (4 + length v) v" by blast
  from c' c ua(1) have same: "sl_bytes h'' r' = sl_bytes h' r" by simp
  from rs(2) [of "sl_spare h' r"] c
  have sc: "parseMod (sl_bytes h' r) (sl_spare h' r) at = Inr (name, v, 4 + length v, off)"
    by simp
  from ua(2) c have sp: "take (4 + length v) (drop off (sl_bytes h' r)) = '' //v'' @ v"
    by (simp add: spc_def pre_def)
  from u sc sp u' same show ?thesis by blast
qed

theorem update_then_scan_witness:
  "parseMod (''module foo //v0.1.0'' @ [lin]) [] 0 = Inr (''foo'', ''0.1.0'', 9, 10) \<and>
   validVersion ''0.1.1'' \<and>
   (\<exists>h' r. updateModVersion grow_double [''module foo //v0.1.0'' @ [lin]]
              \<lparr>s_arr = 0, s_off = 0, s_len = 20, s_cap = 20\<rparr> 10 9 ''0.1.1'' = Inr (h', r) \<and>
            parseMod (sl_bytes h' r) (sl_spare h' r) 0 = Inr (''foo'', ''0.1.1'', 9, 10) \<and>
            take 9 (drop 10 (sl_bytes h' r)) = '' //v0.1.1'' \<and>
            (\<exists>h'' r'. updateModVersion grow_double h' r 10 9 ''0.1.1'' = Inr (h'', r') \<and>
                       sl_bytes h'' r' = sl_bytes h' r)) \<and>
   parseMod (''module foo'' @ [lin] @ ''go 1.17'') [] 0 = Inr (''foo'', [], 0, 10) \<and>
   (''module foo'' @ [lin] @ ''go 1.17'') ! 10 = lin \<and>
   (\<exists>h' r. updateModVersion grow_double [''module foo'' @ [lin] @ ''go 1.17'']
              \<lparr>s_arr = 0, s_off = 0, s_len = 18, s_cap = 18\<rparr> 10 0 ''0.1.1'' = Inr (h', r) \<and>
            parseMod (sl_bytes h' r) (sl_spare h' r) 0 = Inr (''foo'', ''0.1.1'', 9, 10))"
proof -
  let ?b = "''module foo //v0.1.0'' @ [lin]"
  let ?s = "\<lparr>s_arr = 0, s_off = 0, s_len = 20, s_cap = 20\<rparr>"
  have wf: "wf_slice [?b] ?s" by (simp add: wf_slice_def)
  have sb: "sl_bytes [?b] ?s = ?b" by (simp add: sl_bytes_def)
  have sp: "sl_spare [?b] ?s = []" by (simp add: sl_spare_def)
  have pm0: "parseMod ?b [] 0 = Inr (''foo'', ''0.1.0'', 9, 10)" by code_simp
  then have pm: "parseMod (sl_bytes [?b] ?s) (sl_spare [?b] ?s) 0 = Inr (''foo'', ''0.1.0'', 9, 10)"
    by (simp only: sb sp)
  have v: "validVersion ''0.1.1''" by (simp add: validVersion_def isnum_def)
  have ne: "''foo'' \<noteq> []" by simp
  have e1: "''0.1.0'' \<noteq> [] \<or> sl_bytes [?b] ?s ! 10 = lin" by simp
  note t1 = update_then_scan [OF pm ne e1 v wf, of grow_double]
  let ?c = "''module foo'' @ [lin] @ ''go 1.17''"
  let ?t = "\<lparr>s_arr = 0, s_off = 0, s_len = 18, s_cap = 18\<rparr>"
  have wf2: "wf_slice [?c] ?t" by (simp add: wf_slice_def)
  have sb2: "sl_bytes [?c] ?t = ?c" by (simp add: sl_bytes_def)
  have sp2: "sl_spare [?c] ?t = []" by (simp add: sl_spare_def)
  have pm20: "parseMod ?c [] 0 = Inr (''foo'', [], 0, 10)" by code_simp
  then have pm2: "parseMod (sl_bytes [?c] ?t) (sl_spare [?c] ?t) 0 = Inr (''foo'', [], 0, 10)"
    by (simp only: sb2 sp2)
  have nl: "?c ! 10 = lin" by simp
  then have e2: "[] \<noteq> ([] :: byte list) \<or> sl_bytes [?c] ?t ! 10 = lin" by (simp only: sb2) simp
  note t2 = update_then_scan [OF pm2 ne e2 v wf2, of grow_double]
  from t1 t2 pm0 pm20 v nl show ?thesis by simp blast
qed

lemma parseModVersion_no_annotation:
  assumes "next_go b at False = Inr pos" and "pos < length b"
    and "b ! pos \<noteq> com \<or>
         pos + 3 \<le> length b + length sp \<and>
         (take 3 (drop pos (b @ sp)) \<noteq> pre \<or>
          \<not> validVersion (take (search lin b (pos + 3) - (pos + 3)) (drop (pos + 3) (b @ sp))))"
  shows "parseModVersion b sp at = Inr ([], 0, at)"
proof -
  have lp: "length pre = 3" by (simp add: pre_def)
  from search_ge [of "pos + 3" lin b] have "pos + 3 \<le> search lin b (pos + 3)" .
  moreover have "search lin b (pos + 3) \<le> length b + length sp" if "pos + 3 \<le> length b + length sp"
  proof (cases "pos + 3 \<le> length b")
    case True
    from search_le [OF this, of lin] show ?thesis by simp
  next
    case False
    then have "search lin b (pos + 3) = pos + 3" by (intro search_beyond) simp
    with that show ?thesis by simp
  qed
  ultimately show ?thesis using assms
    by (auto simp: parseModVersion_def index_def slice_def Let_def lp)
qed

text \<open>
  Claim C9: on a buffer with a recognised declaration whose identifier is not followed
  by a valid annotation, the scan returns an empty version, length 0 and the offset
  right behind the identifier. Where a byte other than whitespace follows the
  identifier, \<open>parseModVersion\<close> does so (\<open>parseModVersion_no_annotation\<close>,
  and the second buffer below). But when nothing except whitespace
  follows the identifier, as in a file that ends with the declaration line,
  \<open>parseModVersion\<close> reads \<open>b[pos]\<close> at the end of the buffer and the scan panics
  instead of returning.
\<close>

theorem scan_without_annotation_panics:
  "parseMod (''module github.com/jcdotter/pub'' @ [lin]) [] 0 = Inl IndexOutOfRange \<and>
   parseMod (''module github.com/jcdotter/pub'' @ [lin] @ ''go 1.17'') [] 0
     = Inr (''github.com/jcdotter/pub'', [], 0, 30)"
  by code_simp

end
